theory Spec2Isabelle
  imports Main "HOL-Library.Word"
begin

section \<open>JavaScript strings\<close>

text \<open>
  A JavaScript string is a sequence of UTF-16 code units. String literals of the
  source are ASCII and are written \<open>js ''...''\<close>.
\<close>

type_synonym code_unit = "16 word"
type_synonym jsstring = "code_unit list"

definition js :: "string \<Rightarrow> jsstring" where
  "js s = map (\<lambda>c. of_nat (of_char c)) s"

subsection \<open>Character classes of the regular expressions\<close>

text \<open>LineTerminator: LF, CR, U+2028, U+2029. The regex atom \<open>.\<close> excludes exactly these.\<close>

definition is_line_terminator :: "code_unit \<Rightarrow> bool" where
  "is_line_terminator c = (c = 0x0A \<or> c = 0x0D \<or> c = 0x2028 \<or> c = 0x2029)"

definition is_dot :: "code_unit \<Rightarrow> bool" where
  "is_dot c = (\<not> is_line_terminator c)"

text \<open>
  \<open>\s\<close> and \<open>String.prototype.trim\<close> use the same set: WhiteSpace (TAB, VT, FF,
  U+FEFF and the Unicode space separators) together with LineTerminator.
\<close>

definition is_space :: "code_unit \<Rightarrow> bool" where
  "is_space c =
     (c = 0x09 \<or> c = 0x0A \<or> c = 0x0B \<or> c = 0x0C \<or> c = 0x0D \<or> c = 0x20 \<or>
      c = 0xA0 \<or> c = 0x1680 \<or> (0x2000 \<le> c \<and> c \<le> 0x200A) \<or>
      c = 0x2028 \<or> c = 0x2029 \<or> c = 0x202F \<or> c = 0x205F \<or> c = 0x3000 \<or> c = 0xFEFF)"

text \<open>\<open>\d\<close> is \<open>[0-9]\<close>.\<close>

definition is_digit :: "code_unit \<Rightarrow> bool" where
  "is_digit c = (0x30 \<le> c \<and> c \<le> 0x39)"

text \<open>\<open>[ \t]\<close>\<close>

definition is_blank :: "code_unit \<Rightarrow> bool" where
  "is_blank c = (c = 0x20 \<or> c = 0x09)"

text \<open>\<open>[-*+]\<close>\<close>

definition is_bullet :: "code_unit \<Rightarrow> bool" where
  "is_bullet c = (c = 0x2D \<or> c = 0x2A \<or> c = 0x2B)"

text \<open>\<open>[.)]\<close>\<close>

definition is_delim :: "code_unit \<Rightarrow> bool" where
  "is_delim c = (c = 0x2E \<or> c = 0x29)"

text \<open>\<open>[\s\/>]\<close>\<close>

definition is_tag_end :: "code_unit \<Rightarrow> bool" where
  "is_tag_end c = (is_space c \<or> c = 0x2F \<or> c = 0x3E)"

text \<open>\<open>[1-6]\<close>\<close>

definition is_level :: "code_unit \<Rightarrow> bool" where
  "is_level c = (0x31 \<le> c \<and> c \<le> 0x36)"

definition is_char :: "code_unit \<Rightarrow> code_unit \<Rightarrow> bool" where
  "is_char p c = (c = p)"

definition not_char :: "code_unit \<Rightarrow> code_unit \<Rightarrow> bool" where
  "not_char p c = (c \<noteq> p)"

text \<open>
  Matching under the \<open>i\<close> flag (without \<open>u\<close>) compares the canonical forms of the
  pattern character and the input code unit. Canonicalisation upper-cases, and never
  maps a code unit from 128 up to one below 128; so against an ASCII pattern
  character only the two ASCII cases of that letter match.
\<close>

definition ascii_upper :: "code_unit \<Rightarrow> code_unit" where
  "ascii_upper c = (if 0x61 \<le> c \<and> c \<le> 0x7A then c - 0x20 else c)"

definition ci_char :: "code_unit \<Rightarrow> code_unit \<Rightarrow> bool" where
  "ci_char p c = (ascii_upper c = ascii_upper p)"

section \<open>Backtracking matchers\<close>

text \<open>
  A pattern is written in continuation-passing style: a matcher takes the matcher of
  the rest of the pattern and the input from the current position on, and gives the
  first success in the priority order of a backtracking engine (greedy quantifiers try
  the longest repetition first, alternatives are tried left to right).
\<close>

type_synonym 'a cont = "jsstring \<Rightarrow> 'a option"

text \<open>One code unit of a class.\<close>

definition one :: "(code_unit \<Rightarrow> bool) \<Rightarrow> 'a cont \<Rightarrow> 'a cont" where
  "one p k s = (case s of [] \<Rightarrow> None | c # r \<Rightarrow> if p c then k r else None)"

text \<open>\<open>X*\<close>, greedy.\<close>

fun star :: "(code_unit \<Rightarrow> bool) \<Rightarrow> 'a cont \<Rightarrow> 'a cont" where
  "star p k [] = k []"
| "star p k (c # r) =
     (if p c then (case star p k r of Some x \<Rightarrow> Some x | None \<Rightarrow> k (c # r))
      else k (c # r))"

text \<open>\<open>X+\<close>, greedy.\<close>

definition plus :: "(code_unit \<Rightarrow> bool) \<Rightarrow> 'a cont \<Rightarrow> 'a cont" where
  "plus p k = one p (star p k)"

text \<open>\<open>X?\<close>, greedy.\<close>

definition opt :: "(code_unit \<Rightarrow> bool) \<Rightarrow> 'a cont \<Rightarrow> 'a cont" where
  "opt p k s =
     (case s of [] \<Rightarrow> k []
      | c # r \<Rightarrow> if p c then (case k r of Some x \<Rightarrow> Some x | None \<Rightarrow> k s) else k s)"

text \<open>\<open>(X*)\<close> with the captured text accumulated in \<open>acc\<close> and handed to the continuation.\<close>

fun star_cap :: "(code_unit \<Rightarrow> bool) \<Rightarrow> jsstring \<Rightarrow> (jsstring \<Rightarrow> 'a cont) \<Rightarrow> 'a cont" where
  "star_cap p acc k [] = k acc []"
| "star_cap p acc k (c # r) =
     (if p c then (case star_cap p (acc @ [c]) k r of Some x \<Rightarrow> Some x | None \<Rightarrow> k acc (c # r))
      else k acc (c # r))"

text \<open>\<open>(X+)\<close>\<close>

definition plus_cap :: "(code_unit \<Rightarrow> bool) \<Rightarrow> (jsstring \<Rightarrow> 'a cont) \<Rightarrow> 'a cont" where
  "plus_cap p k s = (case s of [] \<Rightarrow> None | c # r \<Rightarrow> if p c then star_cap p [c] k r else None)"

text \<open>\<open>(X{0,n})\<close>, greedy, continuing a capture \<open>acc\<close>.\<close>

fun upto_cap :: "nat \<Rightarrow> (code_unit \<Rightarrow> bool) \<Rightarrow> jsstring \<Rightarrow> (jsstring \<Rightarrow> 'a cont) \<Rightarrow> 'a cont" where
  "upto_cap 0 p acc k s = k acc s"
| "upto_cap (Suc n) p acc k [] = k acc []"
| "upto_cap (Suc n) p acc k (c # r) =
     (if p c then (case upto_cap n p (acc @ [c]) k r of Some x \<Rightarrow> Some x | None \<Rightarrow> k acc (c # r))
      else k acc (c # r))"

text \<open>A literal word under the \<open>i\<close> flag.\<close>

fun lit_ci :: "jsstring \<Rightarrow> 'a cont \<Rightarrow> 'a cont" where
  "lit_ci [] k = k"
| "lit_ci (p # ps) k = one (ci_char p) (lit_ci ps k)"

text \<open>\<open>(A|B|...)\<close> followed by the continuation: the first alternative that lets the rest match.\<close>

fun alt :: "('a cont \<Rightarrow> 'a cont) list \<Rightarrow> 'a cont \<Rightarrow> 'a cont" where
  "alt [] k s = None"
| "alt (a # as) k s = (case a k s of Some x \<Rightarrow> Some x | None \<Rightarrow> alt as k s)"

text \<open>An unanchored pattern is tried at every index from the left, the end of the input included.\<close>

fun search :: "'a cont \<Rightarrow> 'a cont" where
  "search m [] = m []"
| "search m (c # r) = (case m (c # r) of Some x \<Rightarrow> Some x | None \<Rightarrow> search m r)"

text \<open>
  \<open>String.prototype.replace\<close> with a global pattern. The matcher gives the expanded
  replacement and the input after the match. After a match the scan resumes where the match
  ended; after an empty match the next code unit is copied and the scan resumes behind it.
\<close>

function replace_all :: "(jsstring \<times> jsstring) cont \<Rightarrow> jsstring \<Rightarrow> jsstring" where
  "replace_all m [] = (case m [] of Some (rep, rest) \<Rightarrow> rep | None \<Rightarrow> [])"
| "replace_all m (c # r) =
     (case m (c # r) of
        Some (rep, rest) \<Rightarrow>
          if length rest \<le> length r then rep @ replace_all m rest
          else rep @ c # replace_all m r
      | None \<Rightarrow> c # replace_all m r)"
  by pat_completeness auto
termination
  by (relation "measure (\<lambda>(m, s). length s)") auto

text \<open>
  \<open>String.prototype.split\<close> with a pattern that has one capture group: the pieces between
  the matches, with the capture of each match between them. \<open>acc\<close> is the piece since the end
  of the last match. No match is tried at the end of the input; an empty match directly
  behind the last one is skipped.
\<close>

function split_loop :: "(jsstring \<times> jsstring) cont \<Rightarrow> jsstring \<Rightarrow> jsstring \<Rightarrow> jsstring list" where
  "split_loop m acc [] = [acc]"
| "split_loop m acc (c # r) =
     (case m (c # r) of
        Some (cap, rest) \<Rightarrow>
          if length rest \<le> length r then acc # cap # split_loop m [] rest
          else if acc = [] then split_loop m [c] r
          else acc # cap # split_loop m [c] r
      | None \<Rightarrow> split_loop m (acc @ [c]) r)"
  by pat_completeness auto
termination
  by (relation "measure (\<lambda>(m, acc, s). length s)") auto

definition split_re :: "(jsstring \<times> jsstring) cont \<Rightarrow> jsstring \<Rightarrow> jsstring list" where
  "split_re m s =
     (if s = [] then (case m [] of Some x \<Rightarrow> [] | None \<Rightarrow> [[]]) else split_loop m [] s)"

text \<open>\<open>text.split('\n')\<close>\<close>

fun split_nl :: "jsstring \<Rightarrow> jsstring list" where
  "split_nl [] = [[]]"
| "split_nl (c # r) =
     (if c = 0x0A then [] # split_nl r
      else (case split_nl r of [] \<Rightarrow> [[c]] | l # ls \<Rightarrow> (c # l) # ls))"

text \<open>\<open>String.prototype.trim\<close>\<close>

definition trim :: "jsstring \<Rightarrow> jsstring" where
  "trim s = rev (dropWhile is_space (rev (dropWhile is_space s)))"

text \<open>Number to string, for the heading level.\<close>

fun number_string :: "nat \<Rightarrow> jsstring" where
  "number_string n =
     (if n < 10 then [of_nat (48 + n)]
      else number_string (n div 10) @ [of_nat (48 + n mod 10)])"

declare number_string.simps [simp del]

section \<open>messageFormatter.js\<close>

subsection \<open>Content-type detector\<close>

text \<open>
  \<^verbatim>\<open>HTML_PATTERN = /<\/?(p|br|strong|b|em|i|ul|ol|li|h[1-6]|a|div|span|blockquote|pre|code|table)[\s\/>]/i\<close>
\<close>

definition tag_alternatives :: "(unit cont \<Rightarrow> unit cont) list" where
  "tag_alternatives =
     [lit_ci (js ''p''), lit_ci (js ''br''), lit_ci (js ''strong''), lit_ci (js ''b''),
      lit_ci (js ''em''), lit_ci (js ''i''), lit_ci (js ''ul''), lit_ci (js ''ol''),
      lit_ci (js ''li''), (\<lambda>k. lit_ci (js ''h'') (one is_level k)), lit_ci (js ''a''),
      lit_ci (js ''div''), lit_ci (js ''span''), lit_ci (js ''blockquote''),
      lit_ci (js ''pre''), lit_ci (js ''code''), lit_ci (js ''table'')]"

definition HTML_PATTERN_at :: "unit cont" where
  "HTML_PATTERN_at =
     one (is_char 0x3C) (opt (is_char 0x2F) (alt tag_alternatives (one is_tag_end (\<lambda>rest. Some ()))))"

definition HTML_PATTERN_test :: "jsstring \<Rightarrow> bool" where
  "HTML_PATTERN_test text = (search HTML_PATTERN_at text \<noteq> None)"

subsection \<open>Inline formatting\<close>

text \<open>\<^verbatim>\<open>/\*\*([^*]+)\*\*/g\<close> with replacement \<^verbatim>\<open><strong>$1</strong>\<close>\<close>

definition bold_at :: "(jsstring \<times> jsstring) cont" where
  "bold_at =
     one (is_char 0x2A) (one (is_char 0x2A) (plus_cap (not_char 0x2A) (\<lambda>cap.
       one (is_char 0x2A) (one (is_char 0x2A) (\<lambda>rest.
         Some (js ''<strong>'' @ cap @ js ''</strong>'', rest))))))"

text \<open>\<^verbatim>\<open>/\*([^*]+)\*/g\<close> with replacement \<^verbatim>\<open><em>$1</em>\<close>\<close>

definition italic_at :: "(jsstring \<times> jsstring) cont" where
  "italic_at =
     one (is_char 0x2A) (plus_cap (not_char 0x2A) (\<lambda>cap.
       one (is_char 0x2A) (\<lambda>rest. Some (js ''<em>'' @ cap @ js ''</em>'', rest))))"

text \<open>\<^verbatim>\<open>/`([^`]+)`/g\<close> with replacement \<^verbatim>\<open><code>$1</code>\<close>\<close>

definition code_at :: "(jsstring \<times> jsstring) cont" where
  "code_at =
     one (is_char 0x60) (plus_cap (not_char 0x60) (\<lambda>cap.
       one (is_char 0x60) (\<lambda>rest. Some (js ''<code>'' @ cap @ js ''</code>'', rest))))"

definition inlineFormat :: "jsstring \<Rightarrow> jsstring" where
  "inlineFormat str = replace_all code_at (replace_all italic_at (replace_all bold_at str))"

subsection \<open>Line patterns\<close>

text \<open>\<^verbatim>\<open>UL_RE = /^[ \t]*[-*+]\s+(.+)/\<close>; the result is the capture.\<close>

definition UL_RE_exec :: "jsstring \<Rightarrow> jsstring option" where
  "UL_RE_exec =
     star is_blank (one is_bullet (plus is_space (plus_cap is_dot (\<lambda>content rest. Some content))))"

text \<open>\<^verbatim>\<open>OL_RE = /^[ \t]*\d+[.)]\s+(.+)/\<close>; the result is the capture.\<close>

definition OL_RE_exec :: "jsstring \<Rightarrow> jsstring option" where
  "OL_RE_exec =
     star is_blank (plus is_digit (one is_delim (plus is_space
       (plus_cap is_dot (\<lambda>content rest. Some content)))))"

text \<open>\<^verbatim>\<open>H_RE = /^(#{1,6})\s+(.+)/\<close>; the result is the two captures.\<close>

definition H_RE_exec :: "jsstring \<Rightarrow> (jsstring \<times> jsstring) option" where
  "H_RE_exec s =
     (case s of [] \<Rightarrow> None
      | c # r \<Rightarrow>
          if is_char 0x23 c
          then upto_cap 5 (is_char 0x23) [c]
                 (\<lambda>hashes. plus is_space (plus_cap is_dot (\<lambda>content rest. Some (hashes, content)))) r
          else None)"

text \<open>
  \<^verbatim>\<open>INLINE_OL_BREAK = /\.\s+(\d+)[.)]\s+/g\<close> with the replacement of the pre-pass,
  a period, a line feed, \<^verbatim>\<open>$1\<close>, a period and a space.
\<close>

definition INLINE_OL_BREAK_at :: "(jsstring \<times> jsstring) cont" where
  "INLINE_OL_BREAK_at =
     one (is_char 0x2E) (plus is_space (plus_cap is_digit (\<lambda>cap.
       one is_delim (plus is_space (\<lambda>rest.
         Some (js ''.'' @ [0x0A] @ cap @ js ''. '', rest))))))"

text \<open>The pattern of \<^verbatim>\<open>content.split(/\s+(\d+)[.)]\s+/)\<close>\<close>

definition inline_marker_at :: "(jsstring \<times> jsstring) cont" where
  "inline_marker_at =
     plus is_space (plus_cap is_digit (\<lambda>cap.
       one is_delim (plus is_space (\<lambda>rest. Some (cap, rest)))))"

subsection \<open>The converter\<close>

datatype list_kind = UL | OL

record md_state =
  out :: "jsstring list"
  listType :: "list_kind option"
  listItems :: "jsstring list"

text \<open>The text a template literal gives for \<open>listType\<close>.\<close>

definition kind_name :: "list_kind option \<Rightarrow> jsstring" where
  "kind_name t = (case t of None \<Rightarrow> js ''null'' | Some UL \<Rightarrow> js ''ul'' | Some OL \<Rightarrow> js ''ol'')"

definition list_block :: "list_kind option \<Rightarrow> jsstring list \<Rightarrow> jsstring" where
  "list_block t items =
     js ''<'' @ kind_name t @ js ''>'' @ concat items @ js ''</'' @ kind_name t @ js ''>''"

definition flushList :: "md_state \<Rightarrow> md_state" where
  "flushList st =
     (if listItems st \<noteq> []
      then st\<lparr>out := out st @ [list_block (listType st) (listItems st)],
              listType := None, listItems := []\<rparr>
      else st)"

definition li :: "jsstring \<Rightarrow> jsstring" where
  "li t = js ''<li>'' @ inlineFormat t @ js ''</li>''"

definition heading :: "nat \<Rightarrow> jsstring \<Rightarrow> jsstring" where
  "heading lvl t =
     js ''<h'' @ number_string lvl @ js ''>'' @ inlineFormat t @ js ''</h'' @ number_string lvl @ js ''>''"

definition paragraph_block :: "jsstring \<Rightarrow> jsstring" where
  "paragraph_block t = js ''<p>'' @ inlineFormat t @ js ''</p>''"

text \<open>The elements at the indices 0, 2, 4, ...\<close>

fun evens :: "'a list \<Rightarrow> 'a list" where
  "evens [] = []"
| "evens [x] = [x]"
| "evens (x # y # r) = x # evens r"

text \<open>The items an ordered-list line adds.\<close>

definition ol_items :: "jsstring \<Rightarrow> jsstring list" where
  "ol_items content =
     (let inlineParts = split_re inline_marker_at content
      in if length inlineParts > 1
         then map li (filter (\<lambda>itemText. itemText \<noteq> []) (map trim (evens inlineParts)))
         else [li content])"

text \<open>One iteration of the loop over the lines.\<close>

definition process_line :: "md_state \<Rightarrow> jsstring \<Rightarrow> md_state" where
  "process_line st line =
     (case UL_RE_exec line of
        Some content \<Rightarrow>
          (let st1 = (if listType st = Some OL then flushList st else st)
           in st1\<lparr>listType := Some UL, listItems := listItems st1 @ [li content]\<rparr>)
      | None \<Rightarrow>
     (case OL_RE_exec line of
        Some content \<Rightarrow>
          (let st1 = (if listType st = Some UL then flushList st else st)
           in st1\<lparr>listType := Some OL, listItems := listItems st1 @ ol_items content\<rparr>)
      | None \<Rightarrow>
     (if trim line = []
      then (if listType st \<noteq> None then st
            else (let st1 = flushList st in st1\<lparr>out := out st1 @ [js ''<br>'']\<rparr>))
      else
        (let st1 = flushList st
         in case H_RE_exec line of
              Some (hashes, content) \<Rightarrow> st1\<lparr>out := out st1 @ [heading (length hashes) content]\<rparr>
            | None \<Rightarrow> st1\<lparr>out := out st1 @ [paragraph_block line]\<rparr>))))"

definition init_state :: md_state where
  "init_state = \<lparr>out = [], listType = None, listItems = []\<rparr>"

text \<open>The blocks pushed to \<open>out\<close>, before they are joined.\<close>

definition markdown_blocks :: "jsstring \<Rightarrow> jsstring list" where
  "markdown_blocks text =
     out (flushList (foldl process_line init_state
            (split_nl (replace_all INLINE_OL_BREAK_at text))))"

definition markdownToHtml :: "jsstring \<Rightarrow> jsstring" where
  "markdownToHtml text = concat (markdown_blocks text)"

text \<open>The argument is \<open>None\<close> for \<open>null\<close> or \<open>undefined\<close>.\<close>

definition renderMessageContent :: "jsstring option \<Rightarrow> jsstring" where
  "renderMessageContent text =
     (case text of
        None \<Rightarrow> []
      | Some t \<Rightarrow>
          if t = [] then []
          else if HTML_PATTERN_test t then t
          else markdownToHtml t)"

section \<open>Notions used to state the properties\<close>

subsection \<open>The detector's rule in words\<close>

text \<open>
  The structural tag names of the detector's rule, the comparison of names without regard
  to ASCII case, and the rule itself: the text holds, somewhere, \<open><\<close> or \<open></\<close>, then one
  of the names, then white space, a slash or \<open>>\<close>.
\<close>

definition tag_names :: "jsstring list" where
  "tag_names =
     map js [''p'', ''br'', ''strong'', ''b'', ''em'', ''i'', ''ul'', ''ol'', ''li'',
             ''h1'', ''h2'', ''h3'', ''h4'', ''h5'', ''h6'', ''a'', ''div'', ''span'',
             ''blockquote'', ''pre'', ''code'', ''table'']"

definition same_name_ci :: "jsstring \<Rightarrow> jsstring \<Rightarrow> bool" where
  "same_name_ci a b = (map ascii_upper a = map ascii_upper b)"

definition has_tag_boundary :: "jsstring \<Rightarrow> bool" where
  "has_tag_boundary t =
     (\<exists>pre name c post.
        (t = pre @ js ''<'' @ name @ c # post \<or> t = pre @ js ''</'' @ name @ c # post) \<and>
        list_ex (same_name_ci name) tag_names \<and>
        (is_space c \<or> c = 0x2F \<or> c = 0x3E))"

subsection \<open>Lines and the state of the loop\<close>

text \<open>
  The kind of a line as the loop classifies it (the unordered pattern is tried first), the
  items a list line adds to the accumulator, and the block that a line which is neither a list
  line nor blank pushes.
\<close>

definition line_kind :: "jsstring \<Rightarrow> list_kind option" where
  "line_kind line =
     (if UL_RE_exec line \<noteq> None then Some UL
      else if OL_RE_exec line \<noteq> None then Some OL
      else None)"

definition line_items :: "jsstring \<Rightarrow> jsstring list" where
  "line_items line =
     (case UL_RE_exec line of
        Some content \<Rightarrow> [li content]
      | None \<Rightarrow> (case OL_RE_exec line of Some content \<Rightarrow> ol_items content | None \<Rightarrow> []))"

definition line_block :: "jsstring \<Rightarrow> jsstring" where
  "line_block line =
     (case H_RE_exec line of
        Some (hashes, content) \<Rightarrow> heading (length hashes) content
      | None \<Rightarrow> paragraph_block line)"

text \<open>The state of the loop after the lines \<open>ls\<close>, from a fresh accumulator.\<close>

definition state_after :: "jsstring list \<Rightarrow> md_state" where
  "state_after ls = foldl process_line init_state ls"

text \<open>The accumulator holds items exactly when a list kind is set.\<close>

definition acc_consistent :: "md_state \<Rightarrow> bool" where
  "acc_consistent st = ((listType st = None) = (listItems st = []))"

text \<open>
  The list lines whose items the accumulator holds: a list line joins the lines so far when they
  are of its kind and replaces them otherwise, a blank line changes nothing, and any other line
  leaves none. \<open>holds_open_lines\<close> says that the accumulator holds the items of exactly these
  lines, in order, and that each of them is a list line of the kind that is set.
\<close>

definition open_lines_step :: "jsstring list \<Rightarrow> jsstring \<Rightarrow> jsstring list" where
  "open_lines_step run line =
     (case line_kind line of
        Some k \<Rightarrow> if list_all (\<lambda>l. line_kind l = Some k) run then run @ [line] else [line]
      | None \<Rightarrow> if list_all is_space line then run else [])"

definition open_lines :: "jsstring list \<Rightarrow> jsstring list" where
  "open_lines ls = foldl open_lines_step [] ls"

definition holds_open_lines :: "md_state \<Rightarrow> jsstring list \<Rightarrow> bool" where
  "holds_open_lines st run =
     (listItems st = concat (map line_items run) \<and>
      list_all (\<lambda>l. line_kind l \<noteq> None \<and> line_kind l = listType st) run)"

text \<open>
  What \<open>\s+(.+)\<close> can capture: a non-empty text that begins with a code unit that is no white
  space, or, when the line ends in white space only, consists of white space.
\<close>

definition content_shape :: "jsstring \<Rightarrow> bool" where
  "content_shape x = (x \<noteq> [] \<and> (\<not> is_space (hd x) \<or> list_all is_space x))"

subsection \<open>Inline list markers\<close>

text \<open>The parts of a match of \<open>\s+(\d+)[.)]\s+\<close>: white space, digits, delimiter, white space.\<close>

definition marker_text :: "jsstring \<Rightarrow> jsstring \<Rightarrow> code_unit \<Rightarrow> jsstring \<Rightarrow> bool" where
  "marker_text ws ds d ws' =
     (ws \<noteq> [] \<and> list_all is_space ws \<and> ds \<noteq> [] \<and> list_all is_digit ds \<and> is_delim d \<and>
      ws' \<noteq> [] \<and> list_all is_space ws')"

text \<open>
  The pre-pass reads a text as a sequence of stretches: \<open>Keep\<close> is copied, \<open>Break\<close> is a period
  followed by a marker and is rewritten. \<open>seg_src\<close> is the stretch in the input, \<open>seg_dst\<close>
  what stands for it in the result.
\<close>

datatype segment = Keep jsstring | Break jsstring jsstring code_unit jsstring

fun seg_src :: "segment \<Rightarrow> jsstring" where
  "seg_src (Keep s) = s"
| "seg_src (Break ws ds d ws') = 0x2E # ws @ ds @ d # ws'"

fun seg_dst :: "segment \<Rightarrow> jsstring" where
  "seg_dst (Keep s) = s"
| "seg_dst (Break ws ds d ws') = [0x2E, 0x0A] @ ds @ [0x2E, 0x20]"

fun seg_ok :: "segment \<Rightarrow> bool" where
  "seg_ok (Keep s) = True"
| "seg_ok (Break ws ds d ws') = marker_text ws ds d ws'"







subsection \<open>Inline spans\<close>

text \<open>
  An inline substitution reads a string as stretches copied as they are and spans. A span is
  the text between two delimiters in the input (\<open>iseg_src\<close>) and the same text between the
  opening and the closing tag in the result (\<open>iseg_dst\<close>); it is not empty and does not hold
  the delimiter character.
\<close>

datatype inline_seg = Plain jsstring | Span jsstring

fun iseg_src :: "jsstring \<Rightarrow> inline_seg \<Rightarrow> jsstring" where
  "iseg_src delim (Plain s) = s"
| "iseg_src delim (Span x) = delim @ x @ delim"

fun iseg_dst :: "jsstring \<Rightarrow> inline_seg \<Rightarrow> jsstring" where
  "iseg_dst tag (Plain s) = s"
| "iseg_dst tag (Span x) = js ''<'' @ tag @ js ''>'' @ x @ js ''</'' @ tag @ js ''>''"

fun iseg_ok :: "code_unit \<Rightarrow> inline_seg \<Rightarrow> bool" where
  "iseg_ok q (Plain s) = True"
| "iseg_ok q (Span x) = (x \<noteq> [] \<and> list_all (not_char q) x)"

text \<open>
  No match of the pattern \<open>m\<close> begins inside \<open>p\<close>, when \<open>s\<close> follows \<open>p\<close>; and the spans of a
  sequence are the matches found from the left without overlap: no match begins inside a
  copied stretch, and where a span begins the pattern matches.
\<close>

fun no_match :: "(jsstring \<times> jsstring) cont \<Rightarrow> jsstring \<Rightarrow> jsstring \<Rightarrow> bool" where
  "no_match m [] s = True"
| "no_match m (c # p) s = (m (c # p @ s) = None \<and> no_match m p s)"

fun leftmost_spans :: "(jsstring \<times> jsstring) cont \<Rightarrow> jsstring \<Rightarrow> inline_seg list \<Rightarrow> bool" where
  "leftmost_spans m delim [] = True"
| "leftmost_spans m delim (Plain s # segs) =
     (no_match m s (concat (map (iseg_src delim) segs)) \<and> leftmost_spans m delim segs)"
| "leftmost_spans m delim (Span x # segs) =
     (m (concat (map (iseg_src delim) (Span x # segs))) \<noteq> None \<and> leftmost_spans m delim segs)"

subsection \<open>Blocks\<close>

text \<open>
  The tags with which the converter opens a block, the test that a string begins with a given
  string, and the blocks that begin with one of these tags.
\<close>

definition block_tags :: "jsstring list" where
  "block_tags = map js [''p'', ''br'', ''ul'', ''ol'', ''h1'', ''h2'', ''h3'', ''h4'', ''h5'', ''h6'']"

fun starts_with :: "jsstring \<Rightarrow> jsstring \<Rightarrow> bool" where
  "starts_with [] s = True"
| "starts_with (p # ps) [] = False"
| "starts_with (p # ps) (c # cs) = (p = c \<and> starts_with ps cs)"

definition tagged_block :: "jsstring \<Rightarrow> bool" where
  "tagged_block b = list_ex (\<lambda>name. starts_with (js ''<'' @ name @ js ''>'') b) block_tags"

text \<open>The accumulator is consistent and every block pushed so far begins with such a tag.\<close>

definition blocks_tagged :: "md_state \<Rightarrow> bool" where
  "blocks_tagged st = (acc_consistent st \<and> list_all tagged_block (out st))"

section \<open>Character classes and matchers\<close>

lemma space_not_digit: "is_space c \<Longrightarrow> \<not> is_digit c"
  unfolding is_space_def is_digit_def by (auto simp: word_le_nat_alt)

lemma space_not_bullet: "is_space c \<Longrightarrow> \<not> is_bullet c"
  unfolding is_space_def is_bullet_def by (auto simp: word_le_nat_alt)

lemma line_terminator_space: "is_line_terminator c \<Longrightarrow> is_space c"
  unfolding is_space_def is_line_terminator_def by auto

lemma not_space_dot: "\<not> is_space c \<Longrightarrow> is_dot c"
  unfolding is_dot_def using line_terminator_space by blast

lemma digit_not_period: "is_digit c \<Longrightarrow> \<not> is_char 0x2E c"
  unfolding is_digit_def is_char_def by (auto simp: word_le_nat_alt)

lemma one_Some: "one p k s = Some x \<longleftrightarrow> (\<exists>c r. s = c # r \<and> p c \<and> k r = Some x)"
  by (cases s) (auto simp: one_def)

lemma star_sound: "star p k s = Some x \<Longrightarrow> \<exists>w r. s = w @ r \<and> list_all p w \<and> k r = Some x"
proof (induction s)
  case Nil
  then show ?case by simp
next
  case (Cons c s)
  show ?case
  proof (cases "p c \<and> star p k s = Some x")
    case True
    with Cons.IH obtain w r where "s = w @ r" "list_all p w" "k r = Some x" by blast
    then have "c # s = (c # w) @ r \<and> list_all p (c # w) \<and> k r = Some x" using True by simp
    then show ?thesis by blast
  next
    case False
    with Cons.prems have "k (c # s) = Some x" by (auto split: if_splits option.splits)
    then have "c # s = [] @ (c # s) \<and> list_all p [] \<and> k (c # s) = Some x" by simp
    then show ?thesis by blast
  qed
qed

lemma plus_sound: "plus p k s = Some x \<Longrightarrow> \<exists>w r. s = w @ r \<and> w \<noteq> [] \<and> list_all p w \<and> k r = Some x"
proof -
  assume "plus p k s = Some x"
  then obtain c r0 where s: "s = c # r0" "p c" "star p k r0 = Some x"
    by (auto simp: plus_def one_Some)
  from star_sound[OF s(3)] obtain w r where "r0 = w @ r" "list_all p w" "k r = Some x" by blast
  with s have "s = (c # w) @ r \<and> c # w \<noteq> [] \<and> list_all p (c # w) \<and> k r = Some x" by simp
  then show ?thesis by blast
qed

lemma star_cap_sound:
  "star_cap p acc k s = Some x \<Longrightarrow> \<exists>w r. s = w @ r \<and> list_all p w \<and> k (acc @ w) r = Some x"
proof (induction s arbitrary: acc)
  case Nil
  then show ?case by simp
next
  case (Cons c s)
  show ?case
  proof (cases "p c \<and> star_cap p (acc @ [c]) k s = Some x")
    case True
    with Cons.IH obtain w r where "s = w @ r" "list_all p w" "k ((acc @ [c]) @ w) r = Some x" by blast
    then have "c # s = (c # w) @ r \<and> list_all p (c # w) \<and> k (acc @ (c # w)) r = Some x"
      using True by simp
    then show ?thesis by blast
  next
    case False
    with Cons.prems have "k acc (c # s) = Some x" by (auto split: if_splits option.splits)
    then have "c # s = [] @ (c # s) \<and> list_all p [] \<and> k (acc @ []) (c # s) = Some x" by simp
    then show ?thesis by blast
  qed
qed

lemma plus_cap_sound:
  "plus_cap p k s = Some x \<Longrightarrow> \<exists>w r. s = w @ r \<and> w \<noteq> [] \<and> list_all p w \<and> k w r = Some x"
proof -
  assume a: "plus_cap p k s = Some x"
  then obtain c r0 where s: "s = c # r0" "p c" "star_cap p [c] k r0 = Some x"
    by (cases s) (auto simp: plus_cap_def split: if_splits)
  from star_cap_sound[OF s(3)] obtain w r where "r0 = w @ r" "list_all p w" "k ([c] @ w) r = Some x" by blast
  with s have "s = (c # w) @ r \<and> c # w \<noteq> [] \<and> list_all p (c # w) \<and> k (c # w) r = Some x" by simp
  then show ?thesis by blast
qed

lemma upto_cap_sound:
  "upto_cap n p acc k s = Some x \<Longrightarrow>
     \<exists>w r. s = w @ r \<and> length w \<le> n \<and> list_all p w \<and> k (acc @ w) r = Some x"
proof (induction n p acc k s rule: upto_cap.induct)
  case (1 p acc k s)
  then show ?case by simp
next
  case (2 n p acc k)
  then show ?case by simp
next
  case (3 n p acc k c r)
  show ?case
  proof (cases "p c \<and> upto_cap n p (acc @ [c]) k r = Some x")
    case True
    with 3 obtain w r' where "r = w @ r'" "length w \<le> n" "list_all p w" "k ((acc @ [c]) @ w) r' = Some x"
      by blast
    then have "c # r = (c # w) @ r' \<and> length (c # w) \<le> Suc n \<and> list_all p (c # w) \<and> k (acc @ (c # w)) r' = Some x"
      using True by simp
    then show ?thesis by blast
  next
    case False
    with "3.prems" have "k acc (c # r) = Some x" by (auto split: if_splits option.splits)
    then have "c # r = [] @ (c # r) \<and> length ([]::jsstring) \<le> Suc n \<and> list_all p [] \<and> k (acc @ []) (c # r) = Some x" by simp
    then show ?thesis by blast
  qed
qed

text \<open>A greedy repetition that can take all of \<open>x\<close> and go on takes all of it.\<close>

lemma star_cap_greedy:
  "list_all p x \<Longrightarrow> r = [] \<or> \<not> p (hd r) \<Longrightarrow> k (acc @ x) r = Some y \<Longrightarrow>
     star_cap p acc k (x @ r) = Some y"
proof (induction x arbitrary: acc)
  case Nil
  then show ?case by (cases r) auto
next
  case (Cons c x)
  from Cons.prems have "star_cap p (acc @ [c]) k (x @ r) = Some y"
    using Cons.IH[of "acc @ [c]"] by simp
  with Cons.prems show ?case by simp
qed

lemma plus_cap_greedy:
  assumes "x \<noteq> []" "list_all p x" "r = [] \<or> \<not> p (hd r)" "k x r = Some y"
  shows "plus_cap p k (x @ r) = Some y"
proof -
  from assms(1) obtain c x' where x: "x = c # x'" by (cases x) auto
  with assms have "star_cap p [c] k (x' @ r) = Some y"
    using star_cap_greedy[of p x' r k "[c]" y] by simp
  with x assms(2) show ?thesis by (simp add: plus_cap_def)
qed

lemma replace_all_match:
  "m (c # r) = Some (rep, rest) \<Longrightarrow> length rest \<le> length r \<Longrightarrow>
     replace_all m (c # r) = rep @ replace_all m rest"
  by simp

lemma star_greedy:
  "list_all p x \<Longrightarrow> r = [] \<or> \<not> p (hd r) \<Longrightarrow> k r = Some y \<Longrightarrow> star p k (x @ r) = Some y"
proof (induction x)
  case Nil
  then show ?case by (cases r) auto
next
  case (Cons c x)
  then have "star p k (x @ r) = Some y" by simp
  with Cons.prems show ?case by simp
qed

lemma plus_greedy:
  assumes "x \<noteq> []" "list_all p x" "r = [] \<or> \<not> p (hd r)" "k r = Some y"
  shows "plus p k (x @ r) = Some y"
proof -
  from assms(1) obtain c x' where x: "x = c # x'" by (cases x) auto
  with assms have "star p k (x' @ r) = Some y" using star_greedy[of p x' r k y] by simp
  with x assms(2) show ?thesis by (simp add: plus_def one_def)
qed

lemma delim_not_digit: "is_delim d \<Longrightarrow> \<not> is_digit d"
  unfolding is_delim_def is_digit_def by (auto simp: word_le_nat_alt)

section \<open>The detector passes HTML through\<close>

lemma lit_ci_match:
  "same_name_ci name lit \<Longrightarrow> lit_ci lit k (name @ r) = k r"
proof (induction lit arbitrary: name)
  case Nil
  then show ?case by (simp add: same_name_ci_def)
next
  case (Cons p ps)
  then obtain c cs where n: "name = c # cs" "ascii_upper c = ascii_upper p" "same_name_ci cs ps"
    by (cases name) (auto simp: same_name_ci_def)
  then show ?case using Cons.IH[of cs] by (simp add: one_def ci_char_def)
qed

lemma level_ci: "ci_char d c \<Longrightarrow> is_level d \<Longrightarrow> is_level c"
  unfolding ci_char_def is_level_def ascii_upper_def
  by (auto simp: word_le_nat_alt unat_sub_if' split: if_splits)

lemma heading_name_match:
  assumes "same_name_ci name [0x68, d]" "is_level d"
  shows "lit_ci (js ''h'') (one is_level k) (name @ r) = k r"
proof -
  from assms(1) obtain x y where n: "name = [x, y]" "ci_char 0x68 x" "ci_char d y"
    by (cases name; cases "tl name") (auto simp: same_name_ci_def ci_char_def)
  with assms(2) have "is_level y" using level_ci by blast
  with n show ?thesis by (simp add: js_def one_def)
qed

lemma alt_success: "a \<in> set as \<Longrightarrow> a k s = Some () \<Longrightarrow> alt as k s = Some ()"
  by (induction as) (auto split: option.splits)

lemma opt_success: "k s = Some () \<Longrightarrow> opt p k s = Some ()"
  by (cases s) (auto simp: opt_def split: option.splits)

lemma opt_taken: "p c \<Longrightarrow> k r = Some () \<Longrightarrow> opt p k (c # r) = Some ()"
  by (auto simp: opt_def split: option.splits)

lemma search_append: "m s = Some () \<Longrightarrow> search m (pre @ s) = Some ()"
proof (induction pre)
  case Nil
  then show ?case by (cases s) auto
next
  case (Cons c pre)
  then show ?case by (auto split: option.splits)
qed

lemma tag_alt_match:
  assumes "list_ex (same_name_ci name) tag_names" "is_tag_end c"
  shows "alt tag_alternatives (one is_tag_end (\<lambda>rest. Some ())) (name @ c # post) = Some ()"
proof -
  let ?k = "one is_tag_end (\<lambda>rest. Some ())"
  have k: "?k (c # post) = Some ()" using assms(2) by (simp add: one_def)
  from assms(1) obtain n where n: "n \<in> set tag_names" "same_name_ci name n"
    by (auto simp: list_ex_iff)
  have "\<exists>a \<in> set tag_alternatives. a ?k (name @ c # post) = Some ()"
  proof (cases "\<exists>d. is_level d \<and> n = [0x68, d]")
    case True
    then obtain d where "is_level d" "n = [0x68, d]" by blast
    with n(2) have "same_name_ci name [0x68, d]" by simp
    from heading_name_match[OF this \<open>is_level d\<close>, of ?k "c # post"]
    have "lit_ci (js ''h'') (one is_level ?k) (name @ c # post) = Some ()"
      using k by simp
    then show ?thesis by (simp add: tag_alternatives_def)
  next
    case False
    with n(1) have "lit_ci n \<in> set tag_alternatives"
      by (auto simp: tag_names_def tag_alternatives_def js_def is_level_def)
    moreover have "lit_ci n ?k (name @ c # post) = Some ()"
      using lit_ci_match[OF n(2), of ?k "c # post"] k by simp
    ultimately show ?thesis by blast
  qed
  then show ?thesis using alt_success by blast
qed

lemma tag_boundary_detected: "has_tag_boundary t \<Longrightarrow> HTML_PATTERN_test t"
proof -
  assume "has_tag_boundary t"
  then obtain pre name c post where
    t: "t = pre @ js ''<'' @ name @ c # post \<or> t = pre @ js ''</'' @ name @ c # post"
    and nm: "list_ex (same_name_ci name) tag_names" and c: "is_tag_end c"
    by (auto simp: has_tag_boundary_def is_tag_end_def)
  let ?body = "alt tag_alternatives (one is_tag_end (\<lambda>rest. Some ()))"
  have b: "?body (name @ c # post) = Some ()" using tag_alt_match[OF nm c] .
  have open_tag: "HTML_PATTERN_at (js ''<'' @ name @ c # post) = Some ()"
    using opt_success[of ?body "name @ c # post", OF b]
    by (simp add: HTML_PATTERN_at_def js_def one_def is_char_def)
  have close_tag: "HTML_PATTERN_at (js ''</'' @ name @ c # post) = Some ()"
    using opt_taken[of "is_char 0x2F" "0x2F" ?body "name @ c # post", OF _ b]
    by (simp add: HTML_PATTERN_at_def js_def one_def is_char_def)
  from t open_tag close_tag have "search HTML_PATTERN_at t = Some ()"
    using search_append by metis
  then show ?thesis by (simp add: HTML_PATTERN_test_def)
qed

text \<open>
  C1: a text that holds an opening or closing delimiter of one of the structural tag names,
  in either case, directly followed by white space, a slash or \<open>>\<close>, is returned as it is.
\<close>

theorem html_passthrough:
  "has_tag_boundary t \<Longrightarrow> renderMessageContent (Some t) = t"
proof -
  assume h: "has_tag_boundary t"
  then have "HTML_PATTERN_test t" by (rule tag_boundary_detected)
  then show ?thesis by (simp add: renderMessageContent_def)
qed

lemma wit_hyp: "has_tag_boundary (js ''see <DIV class=x>'')"
  unfolding has_tag_boundary_def
  apply (rule exI[of _ "js ''see ''"], rule exI[of _ "js ''DIV''"], rule exI[of _ "0x20"], rule exI[of _ "js ''class=x>''"])
  apply (simp add: js_def tag_names_def same_name_ci_def ascii_upper_def is_space_def)
  done

theorem html_passthrough_witness:
  "has_tag_boundary (js ''see <DIV class=x>'') \<and>
   renderMessageContent (Some (js ''see <DIV class=x>'')) = js ''see <DIV class=x>''"
  using html_passthrough[of "js ''see <DIV class=x>''"] wit_hyp by simp

text \<open>
  C9: for an absent argument and for the empty string the result is the empty string; neither
  the detector nor the converter is consulted.
\<close>

theorem render_absent_or_empty:
  "renderMessageContent None = [] \<and> renderMessageContent (Some []) = []"
  by (simp add: renderMessageContent_def)

section \<open>The list accumulator\<close>

subsection \<open>trim\<close>

lemma trim_empty_iff: "trim s = [] \<longleftrightarrow> list_all is_space s"
proof
  assume "trim s = []"
  then have a: "\<forall>x \<in> set (dropWhile is_space s). is_space x"
    by (simp add: trim_def dropWhile_eq_Nil_conv)
  have "dropWhile is_space s = []"
  proof (rule ccontr)
    assume n: "dropWhile is_space s \<noteq> []"
    then have "\<not> is_space (hd (dropWhile is_space s))" by (rule hd_dropWhile)
    moreover have "hd (dropWhile is_space s) \<in> set (dropWhile is_space s)" using n by simp
    ultimately show False using a by blast
  qed
  then show "list_all is_space s" by (simp add: dropWhile_eq_Nil_conv list_all_iff)
next
  assume "list_all is_space s"
  then have d: "dropWhile is_space s = []" by (simp add: list_all_iff)
  show "trim s = []" unfolding trim_def d by simp
qed

subsection \<open>Blank lines are no list lines\<close>

lemma blank_no_UL:
  assumes "list_all is_space s"
  shows "UL_RE_exec s = None"
proof (rule ccontr)
  assume "UL_RE_exec s \<noteq> None"
  then obtain x where "UL_RE_exec s = Some x" by blast
  from star_sound[OF this[unfolded UL_RE_exec_def]]
  obtain w r where wr: "s = w @ r"
    and k: "one is_bullet (plus is_space (plus_cap is_dot (\<lambda>content rest. Some content))) r = Some x"
    by blast
  from k obtain c r' where "r = c # r'" "is_bullet c" unfolding one_Some by blast
  with wr assms have "is_space c" by (simp add: list_all_iff)
  with \<open>is_bullet c\<close> show False using space_not_bullet by blast
qed

lemma blank_no_OL:
  assumes "list_all is_space s"
  shows "OL_RE_exec s = None"
proof (rule ccontr)
  assume "OL_RE_exec s \<noteq> None"
  then obtain x where "OL_RE_exec s = Some x" by blast
  from star_sound[OF this[unfolded OL_RE_exec_def]]
  obtain w r where wr: "s = w @ r"
    and k: "plus is_digit (one is_delim (plus is_space (plus_cap is_dot (\<lambda>content rest. Some content)))) r = Some x"
    by blast
  from k obtain c r' where "r = c # r'" "is_digit c" unfolding plus_def one_Some by blast
  with wr assms have "is_space c" by (simp add: list_all_iff)
  with \<open>is_digit c\<close> show False using space_not_digit by blast
qed

subsection \<open>The content of a list line\<close>

lemma star_cap_content:
  "star_cap p acc (\<lambda>content rest. Some content) s = Some (acc @ takeWhile p s)"
  by (induction s arbitrary: acc) auto

lemma plus_cap_content:
  "plus_cap p (\<lambda>content rest. Some content) s =
     (case s of [] \<Rightarrow> None | c # r \<Rightarrow> if p c then Some (c # takeWhile p r) else None)"
  by (cases s) (auto simp: plus_cap_def star_cap_content)

lemma ws_content_None:
  "star is_space (plus_cap is_dot (\<lambda>content rest. Some content)) s = None \<Longrightarrow> list_all is_space s"
proof (induction s)
  case Nil
  then show ?case by simp
next
  case (Cons c s)
  show ?case
  proof (cases "is_space c")
    case True
    with Cons.prems have "star is_space (plus_cap is_dot (\<lambda>content rest. Some content)) s = None"
      by (auto split: option.splits)
    with Cons.IH True show ?thesis by simp
  next
    case False
    then have "is_dot c" by (rule not_space_dot)
    with False Cons.prems show ?thesis by (simp add: plus_cap_content)
  qed
qed

lemma ws_content_Some:
  "star is_space (plus_cap is_dot (\<lambda>content rest. Some content)) s = Some x \<Longrightarrow> content_shape x"
proof (induction s)
  case Nil
  then show ?case by (simp add: plus_cap_content)
next
  case (Cons c s)
  let ?k = "plus_cap is_dot (\<lambda>content rest. Some content)"
  show ?case
  proof (cases "is_space c")
    case True
    show ?thesis
    proof (cases "star is_space ?k s")
      case None
      then have all: "list_all is_space s" by (rule ws_content_None)
      from None True Cons.prems have "?k (c # s) = Some x" by simp
      then have x: "x = c # takeWhile is_dot s" by (auto simp: plus_cap_content split: if_splits)
      have "\<forall>y \<in> set (takeWhile is_dot s). y \<in> set s" using set_takeWhileD by fast
      with all True x show ?thesis by (simp add: content_shape_def list_all_iff)
    next
      case (Some y)
      with True Cons.prems have "y = x" by simp
      with Some Cons.IH show ?thesis by simp
    qed
  next
    case False
    with Cons.prems have "?k (c # s) = Some x" by simp
    then have "x = c # takeWhile is_dot s" by (auto simp: plus_cap_content split: if_splits)
    with False show ?thesis by (simp add: content_shape_def)
  qed
qed

lemma ws_plus_content:
  "plus is_space (plus_cap is_dot (\<lambda>content rest. Some content)) s = Some x \<Longrightarrow> content_shape x"
proof -
  assume "plus is_space (plus_cap is_dot (\<lambda>content rest. Some content)) s = Some x"
  then obtain c r where "star is_space (plus_cap is_dot (\<lambda>content rest. Some content)) r = Some x"
    unfolding plus_def one_Some by blast
  then show ?thesis by (rule ws_content_Some)
qed

lemma OL_content_shape: "OL_RE_exec line = Some content \<Longrightarrow> content_shape content"
proof -
  let ?k = "plus is_space (plus_cap is_dot (\<lambda>content rest. Some content))"
  assume "OL_RE_exec line = Some content"
  from star_sound[OF this[unfolded OL_RE_exec_def]]
  obtain r where "plus is_digit (one is_delim ?k) r = Some content" by blast
  from plus_sound[OF this]
  obtain r' where "one is_delim ?k r' = Some content" by blast
  then obtain r'' where "?k r'' = Some content" unfolding one_Some by blast
  then show ?thesis by (rule ws_plus_content)
qed

lemma UL_content_shape: "UL_RE_exec line = Some content \<Longrightarrow> content_shape content"
proof -
  let ?k = "plus is_space (plus_cap is_dot (\<lambda>content rest. Some content))"
  assume "UL_RE_exec line = Some content"
  from star_sound[OF this[unfolded UL_RE_exec_def]]
  obtain r where "one is_bullet ?k r = Some content" by blast
  then obtain r'' where "?k r'' = Some content" unfolding one_Some by blast
  then show ?thesis by (rule ws_plus_content)
qed

subsection \<open>The inline marker pattern\<close>

lemma marker_tail_sound:
  assumes "plus_cap is_digit (\<lambda>cap. one is_delim (plus is_space (\<lambda>rest. Some (f cap, rest)))) s = Some (y, rest)"
  shows "\<exists>ds d ws'. s = ds @ d # ws' @ rest \<and> y = f ds \<and> ds \<noteq> [] \<and> list_all is_digit ds \<and>
           is_delim d \<and> ws' \<noteq> [] \<and> list_all is_space ws'"
proof -
  from plus_cap_sound[OF assms] obtain ds r2 where
    1: "s = ds @ r2" "ds \<noteq> []" "list_all is_digit ds"
    and k2: "one is_delim (plus is_space (\<lambda>rest. Some (f ds, rest))) r2 = Some (y, rest)" by blast
  from k2 obtain d r3 where
    2: "r2 = d # r3" "is_delim d"
    and k3: "plus is_space (\<lambda>rest. Some (f ds, rest)) r3 = Some (y, rest)"
    unfolding one_Some by blast
  from plus_sound[OF k3] obtain ws' r4 where
    3: "r3 = ws' @ r4" "ws' \<noteq> []" "list_all is_space ws'" "Some (f ds, r4) = Some (y, rest)" by blast
  from 1 2 3 have "s = ds @ d # ws' @ rest \<and> y = f ds \<and> ds \<noteq> [] \<and> list_all is_digit ds \<and>
           is_delim d \<and> ws' \<noteq> [] \<and> list_all is_space ws'" by simp
  then show ?thesis by blast
qed

lemma inline_marker_sound:
  assumes "inline_marker_at s = Some (cap, rest)"
  shows "\<exists>ws d ws'. s = ws @ cap @ d # ws' @ rest \<and> marker_text ws cap d ws'"
proof -
  from plus_sound[OF assms[unfolded inline_marker_at_def]] obtain ws r1 where
    1: "s = ws @ r1" "ws \<noteq> []" "list_all is_space ws"
    and k1: "plus_cap is_digit (\<lambda>cap. one is_delim (plus is_space (\<lambda>rest. Some (cap, rest)))) r1 = Some (cap, rest)"
    by blast
  from marker_tail_sound[of "\<lambda>x. x", OF k1] obtain ds d ws' where
    2: "r1 = ds @ d # ws' @ rest" "cap = ds" "ds \<noteq> []" "list_all is_digit ds" "is_delim d"
       "ws' \<noteq> []" "list_all is_space ws'" by blast
  from 1 2 have "s = ws @ cap @ d # ws' @ rest \<and> marker_text ws cap d ws'"
    by (simp add: marker_text_def)
  then show ?thesis by blast
qed


lemma inline_marker_needs_space: "\<not> is_space c \<Longrightarrow> inline_marker_at (c # r) = None"
  by (simp add: inline_marker_at_def plus_def one_def)

lemma inline_marker_blank:
  assumes "list_all is_space s"
  shows "inline_marker_at s = None"
proof (rule ccontr)
  assume "inline_marker_at s \<noteq> None"
  then obtain cap rest where "inline_marker_at s = Some (cap, rest)" by (cases "inline_marker_at s") auto
  from inline_marker_sound[OF this] obtain ws d ws' where
    s: "s = ws @ cap @ d # ws' @ rest" and m: "marker_text ws cap d ws'" by blast
  from m obtain x where x: "x \<in> set cap" "is_digit x"
    by (cases cap) (auto simp: marker_text_def)
  with s assms have "is_space x" by (auto simp: list_all_iff)
  with x show False using space_not_digit by blast
qed

subsection \<open>split\<close>

lemma split_loop_blank:
  "list_all is_space s \<Longrightarrow> split_loop inline_marker_at acc s = [acc @ s]"
proof (induction s arbitrary: acc)
  case Nil
  then show ?case by simp
next
  case (Cons c s)
  from Cons.prems have "inline_marker_at (c # s) = None" by (rule inline_marker_blank)
  moreover from Cons.prems have "list_all is_space s" by simp
  ultimately show ?case using Cons.IH[of "acc @ [c]"] by simp
qed

lemma split_loop_head: "\<exists>t ts. split_loop m acc s = (acc @ t) # ts"
proof (induction m acc s rule: split_loop.induct)
  case (1 m acc)
  then show ?case by simp
next
  case (2 m acc c r)
  show ?case
  proof (cases "m (c # r)")
    case None
    from 2(1)[OF None] obtain t ts where "split_loop m (acc @ [c]) r = ((acc @ [c]) @ t) # ts" by blast
    with None have "split_loop m acc (c # r) = (acc @ (c # t)) # ts" by simp
    then show ?thesis by blast
  next
    case (Some a)
    obtain cap rest where a: "a = (cap, rest)" by (cases a)
    show ?thesis
    proof (cases "length rest \<le> length r")
      case True
      with Some a have "split_loop m acc (c # r) = (acc @ []) # cap # split_loop m [] rest" by simp
      then show ?thesis by blast
    next
      case False
      show ?thesis
      proof (cases "acc = []")
        case True
        from 2(3)[OF Some a[symmetric] False True] obtain t ts where
          "split_loop m [c] r = ([c] @ t) # ts" by blast
        with Some a False True have "split_loop m acc (c # r) = (acc @ (c # t)) # ts" by simp
        then show ?thesis by blast
      next
        case nonempty: False
        with Some a False have "split_loop m acc (c # r) = (acc @ []) # cap # split_loop m [c] r" by simp
        then show ?thesis by blast
      qed
    qed
  qed
qed

lemma evens_head: "evens (x # xs) = x # evens (tl xs)"
  by (cases xs) auto

lemma ol_items_nonempty:
  assumes "content_shape content"
  shows "ol_items content \<noteq> []"
proof (cases "list_all is_space content")
  case True
  from assms have ne: "content \<noteq> []" by (simp add: content_shape_def)
  from True have "split_loop inline_marker_at [] content = [content]"
    using split_loop_blank[of content "[]"] by simp
  with ne show ?thesis by (simp add: ol_items_def split_re_def)
next
  case False
  with assms obtain c r where c: "content = c # r" "\<not> is_space c"
    by (cases content) (auto simp: content_shape_def)
  then have "inline_marker_at (c # r) = None" using inline_marker_needs_space by blast
  then have sp: "split_re inline_marker_at content = split_loop inline_marker_at [c] r"
    using c by (simp add: split_re_def)
  from split_loop_head[of inline_marker_at "[c]" r] obtain t ts where
    h: "split_loop inline_marker_at [c] r = (c # t) # ts" by auto
  have "\<not> list_all is_space (c # t)" using c by simp
  then have tr: "trim (c # t) \<noteq> []" using trim_empty_iff by blast
  show ?thesis
  proof (cases "length (split_re inline_marker_at content) > 1")
    case True
    then have "ol_items content =
        map li (filter (\<lambda>itemText. itemText \<noteq> []) (map trim (evens ((c # t) # ts))))"
      using sp h by (simp add: ol_items_def)
    with tr show ?thesis by (simp add: evens_head)
  next
    case False
    then show ?thesis by (simp add: ol_items_def)
  qed
qed

subsection \<open>The accumulator stays consistent\<close>

lemma flushList_empty: "listItems st = [] \<Longrightarrow> flushList st = st"
  by (simp add: flushList_def)

lemma flushList_nonempty:
  "listItems st \<noteq> [] \<Longrightarrow>
     flushList st = st\<lparr>out := out st @ [list_block (listType st) (listItems st)],
                       listType := None, listItems := []\<rparr>"
  by (simp add: flushList_def)

lemma flushList_consistent:
  "acc_consistent st \<Longrightarrow> listType (flushList st) = None \<and> listItems (flushList st) = []"
  by (simp add: flushList_def acc_consistent_def)

lemma process_UL:
  "UL_RE_exec line = Some content \<Longrightarrow>
     process_line st line =
       (let st1 = (if listType st = Some OL then flushList st else st)
        in st1\<lparr>listType := Some UL, listItems := listItems st1 @ [li content]\<rparr>)"
  by (simp add: process_line_def)

lemma process_OL:
  "UL_RE_exec line = None \<Longrightarrow> OL_RE_exec line = Some content \<Longrightarrow>
     process_line st line =
       (let st1 = (if listType st = Some UL then flushList st else st)
        in st1\<lparr>listType := Some OL, listItems := listItems st1 @ ol_items content\<rparr>)"
  by (simp add: process_line_def)

lemma process_blank:
  "list_all is_space line \<Longrightarrow>
     process_line st line =
       (if listType st \<noteq> None then st
        else (let st1 = flushList st in st1\<lparr>out := out st1 @ [js ''<br>'']\<rparr>))"
  using blank_no_UL[of line] blank_no_OL[of line] trim_empty_iff[of line]
  by (simp add: process_line_def)

lemma process_other:
  "UL_RE_exec line = None \<Longrightarrow> OL_RE_exec line = None \<Longrightarrow> \<not> list_all is_space line \<Longrightarrow>
     process_line st line =
       (let st1 = flushList st
        in st1\<lparr>out := out st1 @
             [case H_RE_exec line of Some (hashes, content) \<Rightarrow> heading (length hashes) content
              | None \<Rightarrow> paragraph_block line]\<rparr>)"
  using trim_empty_iff[of line]
  by (simp add: process_line_def Let_def split: option.splits)

lemma process_line_consistent:
  assumes "acc_consistent st"
  shows "acc_consistent (process_line st line)"
proof (cases "UL_RE_exec line")
  case (Some content)
  then show ?thesis by (simp add: process_UL acc_consistent_def Let_def)
next
  case None
  show ?thesis
  proof (cases "OL_RE_exec line")
    case (Some content)
    then have "ol_items content \<noteq> []" using OL_content_shape ol_items_nonempty by blast
    with None Some show ?thesis by (simp add: process_OL acc_consistent_def Let_def)
  next
    case noOL: None
    show ?thesis
    proof (cases "list_all is_space line")
      case True
      with assms flushList_consistent[OF assms] show ?thesis
        by (simp add: process_blank acc_consistent_def Let_def)
    next
      case False
      with None noOL flushList_consistent[OF assms] show ?thesis
        by (simp add: process_other acc_consistent_def Let_def)
    qed
  qed
qed

lemma foldl_consistent:
  "acc_consistent st \<Longrightarrow> acc_consistent (foldl process_line st ls)"
  by (induction ls arbitrary: st) (auto intro: process_line_consistent)

lemma reachable_consistent: "acc_consistent (foldl process_line init_state ls)"
  by (rule foldl_consistent) (simp add: acc_consistent_def init_state_def)

subsection \<open>One line at a time\<close>

lemma line_kind_UL: "line_kind line = Some UL \<Longrightarrow> \<exists>content. UL_RE_exec line = Some content"
  by (auto simp: line_kind_def split: if_splits)

lemma line_kind_OL:
  "line_kind line = Some OL \<Longrightarrow> UL_RE_exec line = None \<and> (\<exists>content. OL_RE_exec line = Some content)"
  by (auto simp: line_kind_def split: if_splits)

lemma line_kind_None: "line_kind line = None \<Longrightarrow> UL_RE_exec line = None \<and> OL_RE_exec line = None"
  by (auto simp: line_kind_def split: if_splits)

lemma switch_kind:
  assumes "acc_consistent st" "listType st = Some k" "line_kind line = Some k'" "k' \<noteq> k"
  shows "process_line st line =
           \<lparr>out = out st @ [list_block (Some k) (listItems st)],
            listType = Some k', listItems = line_items line\<rparr>"
proof -
  from assms(1,2) have ne: "listItems st \<noteq> []" by (auto simp: acc_consistent_def)
  show ?thesis
  proof (cases k')
    case UL
    with assms(4) have k: "k = OL" by (cases k) auto
    from UL assms(3) obtain content where c: "UL_RE_exec line = Some content"
      using line_kind_UL by blast
    with k assms(2) ne show ?thesis
      by (simp add: process_UL flushList_nonempty line_items_def UL)
  next
    case OL
    with assms(4) have k: "k = UL" by (cases k) auto
    from OL assms(3) obtain content where c: "UL_RE_exec line = None" "OL_RE_exec line = Some content"
      using line_kind_OL by blast
    with k assms(2) ne show ?thesis
      by (simp add: process_OL flushList_nonempty line_items_def OL)
  qed
qed

lemma same_kind:
  assumes "listType st = Some k" "line_kind line = Some k"
  shows "process_line st line = st\<lparr>listItems := listItems st @ line_items line\<rparr>"
proof (cases k)
  case UL
  with assms(2) obtain content where c: "UL_RE_exec line = Some content"
    using line_kind_UL by blast
  with UL assms(1) show ?thesis
    by (cases st) (simp add: process_UL line_items_def)
next
  case OL
  with assms(2) obtain content where c: "UL_RE_exec line = None" "OL_RE_exec line = Some content"
    using line_kind_OL by blast
  with OL assms(1) show ?thesis
    by (cases st) (simp add: process_OL line_items_def)
qed

lemma other_line:
  assumes "listItems st \<noteq> []" "line_kind line = None" "\<not> list_all is_space line"
  shows "process_line st line =
           \<lparr>out = out st @ [list_block (listType st) (listItems st), line_block line],
            listType = None, listItems = []\<rparr>"
proof -
  from assms(2) have "UL_RE_exec line = None" "OL_RE_exec line = None"
    using line_kind_None by blast+
  with assms(1,3) show ?thesis
    by (simp add: process_other flushList_nonempty line_block_def)
qed

lemma blank_in_list:
  assumes "acc_consistent st" "listItems st \<noteq> []" "list_all is_space line"
  shows "process_line st line = st"
proof -
  from assms(1,2) have "listType st \<noteq> None" by (simp add: acc_consistent_def)
  with assms(3) show ?thesis by (simp add: process_blank)
qed


lemma state_after_consistent: "acc_consistent (state_after ls)"
  unfolding state_after_def by (rule reachable_consistent)



lemma fresh_kind:
  assumes "acc_consistent st" "listType st = None" "line_kind line = Some k"
  shows "process_line st line = st\<lparr>listType := Some k, listItems := line_items line\<rparr>"
proof -
  from assms(1,2) have e: "listItems st = []" by (simp add: acc_consistent_def)
  show ?thesis
  proof (cases k)
    case UL
    with assms(3) obtain content where c: "UL_RE_exec line = Some content"
      using line_kind_UL by blast
    with UL assms(2) e show ?thesis
      by (cases st) (simp add: process_UL line_items_def)
  next
    case OL
    with assms(3) obtain content where c: "UL_RE_exec line = None" "OL_RE_exec line = Some content"
      using line_kind_OL by blast
    with OL assms(2) e show ?thesis
      by (cases st) (simp add: process_OL line_items_def)
  qed
qed

lemma open_lines_step_holds:
  assumes c: "acc_consistent st" and h: "holds_open_lines st run"
  shows "holds_open_lines (process_line st line) (open_lines_step run line)"
proof (cases "line_kind line")
  case None
  then have n: "UL_RE_exec line = None" "OL_RE_exec line = None" using line_kind_None by blast+
  show ?thesis
  proof (cases "list_all is_space line")
    case True
    then have r: "open_lines_step run line = run" using None by (simp add: open_lines_step_def)
    show ?thesis
    proof (cases "listType st = None")
      case t: True
      with c have "listItems st = []" by (simp add: acc_consistent_def)
      with t True have "process_line st line = st\<lparr>out := out st @ [js ''<br>'']\<rparr>"
        by (simp add: process_blank flushList_empty)
      with h r show ?thesis by (simp add: holds_open_lines_def)
    next
      case False
      with True have "process_line st line = st" by (simp add: process_blank)
      with h r show ?thesis by simp
    qed
  next
    case False
    then have r: "open_lines_step run line = []" using None by (simp add: open_lines_step_def)
    from n False flushList_consistent[OF c]
    have "listItems (process_line st line) = []" by (simp add: process_other Let_def)
    with r show ?thesis by (simp add: holds_open_lines_def)
  qed
next
  case (Some k)
  show ?thesis
  proof (cases "listType st")
    case None
    with h have "run = []" by (cases run) (auto simp: holds_open_lines_def)
    then have r: "open_lines_step run line = [line]" using Some by (simp add: open_lines_step_def)
    from fresh_kind[OF c None Some] Some r show ?thesis by (simp add: holds_open_lines_def)
  next
    case t: (Some k0)
    show ?thesis
    proof (cases "k = k0")
      case True
      from h t True have "list_all (\<lambda>l. line_kind l = Some k) run"
        by (simp add: holds_open_lines_def list_all_iff)
      then have r: "open_lines_step run line = run @ [line]"
        using Some by (simp add: open_lines_step_def)
      from t True Some have "process_line st line = st\<lparr>listItems := listItems st @ line_items line\<rparr>"
        using same_kind by simp
      with h r t True Some show ?thesis by (simp add: holds_open_lines_def)
    next
      case False
      from c t have "listItems st \<noteq> []" by (simp add: acc_consistent_def)
      with h obtain l run' where run: "run = l # run'" by (cases run) (auto simp: holds_open_lines_def)
      with h t have "line_kind l = Some k0" by (simp add: holds_open_lines_def)
      with run False have "\<not> list_all (\<lambda>l. line_kind l = Some k) run" by auto
      then have r: "open_lines_step run line = [line]" using Some by (simp add: open_lines_step_def)
      from switch_kind[OF c t Some False] Some r show ?thesis by (simp add: holds_open_lines_def)
    qed
  qed
qed

lemma state_after_snoc: "state_after (ls @ [l]) = process_line (state_after ls) l"
  by (simp add: state_after_def)

lemma open_lines_snoc: "open_lines (ls @ [l]) = open_lines_step (open_lines ls) l"
  by (simp add: open_lines_def)

lemma state_after_holds: "holds_open_lines (state_after ls) (open_lines ls)"
proof (induction ls rule: rev_induct)
  case Nil
  then show ?case by (simp add: holds_open_lines_def state_after_def open_lines_def init_state_def)
next
  case (snoc l ls)
  then show ?case
    unfolding state_after_snoc open_lines_snoc
    using open_lines_step_holds[OF state_after_consistent] by blast
qed

text \<open>
  C3, as stated, fails: after the line \<open>1. a\<close> the accumulator holds one item; the empty line
  is no list line, yet it is processed without a flush: nothing is pushed to \<open>out\<close> and the item
  stays in the accumulator.
\<close>

theorem nonlist_line_flush_counterexample:
  "listItems (state_after [js ''1. a'']) = [js ''<li>a</li>''] \<and>
   line_kind [] = None \<and>
   process_line (state_after [js ''1. a'']) [] = state_after [js ''1. a''] \<and>
   out (process_line (state_after [js ''1. a'']) []) = [] \<and>
   listItems (process_line (state_after [js ''1. a'']) []) = [js ''<li>a</li>'']"
  by code_simp

text \<open>
  C3, amended: after any lines the accumulator holds items of exactly one kind: its items are
  the items of the list lines since it was last emptied, these lines are all of the kind that is
  set, and it is empty exactly when no kind is set. A list line that meets an empty accumulator
  sets its own kind; a line of the same kind only appends; a line of the other list kind closes
  the list first and starts the accumulator anew with its own items; a line that is neither a
  list line nor blank closes the list and pushes its own block behind it; a blank line leaves an
  open list untouched; and at the end of the input the open list is closed.
\<close>

theorem list_accumulator_flush:
  "st = state_after ls \<Longrightarrow>
     ((listType st = None) = (listItems st = [])) \<and>
     listItems st = concat (map line_items (open_lines ls)) \<and>
     list_all (\<lambda>l. line_kind l \<noteq> None \<and> line_kind l = listType st) (open_lines ls) \<and>
     (listType st = None \<and> line_kind line = Some k' \<longrightarrow>
        process_line st line = st\<lparr>listType := Some k', listItems := line_items line\<rparr>) \<and>
     (listType st = Some k \<and> line_kind line = Some k' \<and> k' \<noteq> k \<longrightarrow>
        process_line st line =
          \<lparr>out = out st @ [list_block (Some k) (listItems st)],
           listType = Some k', listItems = line_items line\<rparr>) \<and>
     (listType st = Some k \<and> line_kind line = Some k \<longrightarrow>
        process_line st line = st\<lparr>listItems := listItems st @ line_items line\<rparr>) \<and>
     (listItems st \<noteq> [] \<and> line_kind line = None \<and> \<not> list_all is_space line \<longrightarrow>
        process_line st line =
          \<lparr>out = out st @ [list_block (listType st) (listItems st), line_block line],
           listType = None, listItems = []\<rparr>) \<and>
     (listItems st \<noteq> [] \<and> list_all is_space line \<longrightarrow> process_line st line = st) \<and>
     (listItems st \<noteq> [] \<longrightarrow>
        flushList st =
          \<lparr>out = out st @ [list_block (listType st) (listItems st)],
           listType = None, listItems = []\<rparr>) \<and>
     markdown_blocks text =
       out (flushList (state_after (split_nl (replace_all INLINE_OL_BREAK_at text))))"
proof -
  assume st: "st = state_after ls"
  then have c: "acc_consistent st" by (simp add: state_after_consistent)
  have 1: "(listType st = None) = (listItems st = [])" using c by (simp add: acc_consistent_def)
  have h: "holds_open_lines st (open_lines ls)" unfolding st by (rule state_after_holds)
  have 8: "listItems st = concat (map line_items (open_lines ls))"
    using h by (simp add: holds_open_lines_def)
  have 9: "list_all (\<lambda>l. line_kind l \<noteq> None \<and> line_kind l = listType st) (open_lines ls)"
    using h by (simp add: holds_open_lines_def)
  have 10: "listType st = None \<and> line_kind line = Some k' \<longrightarrow>
        process_line st line = st\<lparr>listType := Some k', listItems := line_items line\<rparr>"
    using fresh_kind[OF c] by blast
  have 2: "listType st = Some k \<and> line_kind line = Some k' \<and> k' \<noteq> k \<longrightarrow>
        process_line st line =
          \<lparr>out = out st @ [list_block (Some k) (listItems st)],
           listType = Some k', listItems = line_items line\<rparr>"
    using switch_kind[OF c] by blast
  have 3: "listType st = Some k \<and> line_kind line = Some k \<longrightarrow>
        process_line st line = st\<lparr>listItems := listItems st @ line_items line\<rparr>"
    using same_kind by blast
  have 4: "listItems st \<noteq> [] \<and> line_kind line = None \<and> \<not> list_all is_space line \<longrightarrow>
        process_line st line =
          \<lparr>out = out st @ [list_block (listType st) (listItems st), line_block line],
           listType = None, listItems = []\<rparr>"
    using other_line by blast
  have 5: "listItems st \<noteq> [] \<and> list_all is_space line \<longrightarrow> process_line st line = st"
    using blank_in_list[OF c] by blast
  have 6: "listItems st \<noteq> [] \<longrightarrow>
        flushList st =
          \<lparr>out = out st @ [list_block (listType st) (listItems st)],
           listType = None, listItems = []\<rparr>"
    by (simp add: flushList_nonempty)
  have 7: "markdown_blocks text =
       out (flushList (state_after (split_nl (replace_all INLINE_OL_BREAK_at text))))"
    by (simp add: markdown_blocks_def state_after_def)
  from 1 8 9 10 2 3 4 5 6 7 show ?thesis by (intro conjI)
qed

theorem list_accumulator_flush_witness:
  "listType (state_after []) = None \<and> line_kind (js ''- a'') = Some UL \<and>
   process_line (state_after []) (js ''- a'') =
     \<lparr>out = [], listType = Some UL, listItems = [js ''<li>a</li>'']\<rparr> \<and>
   open_lines [js ''1. x'', js ''- a'', [], js ''- c''] = [js ''- a'', js ''- c''] \<and>
   listItems (state_after [js ''1. x'', js ''- a'', [], js ''- c'']) =
     [js ''<li>a</li>'', js ''<li>c</li>''] \<and>
   listType (state_after [js ''- a'']) = Some UL \<and> listItems (state_after [js ''- a'']) \<noteq> [] \<and>
   line_kind (js ''1. b'') = Some OL \<and>
   process_line (state_after [js ''- a'']) (js ''1. b'') =
     \<lparr>out = [js ''<ul><li>a</li></ul>''], listType = Some OL, listItems = [js ''<li>b</li>'']\<rparr> \<and>
   line_kind (js ''- c'') = Some UL \<and>
   process_line (state_after [js ''- a'']) (js ''- c'') =
     \<lparr>out = [], listType = Some UL, listItems = [js ''<li>a</li>'', js ''<li>c</li>'']\<rparr> \<and>
   line_kind (js ''text'') = None \<and> \<not> list_all is_space (js ''text'') \<and>
   process_line (state_after [js ''- a'']) (js ''text'') =
     \<lparr>out = [js ''<ul><li>a</li></ul>'', js ''<p>text</p>''], listType = None, listItems = []\<rparr> \<and>
   list_all is_space [0x20] \<and>
   process_line (state_after [js ''- a'']) [0x20] = state_after [js ''- a''] \<and>
   flushList (state_after [js ''- a'']) =
     \<lparr>out = [js ''<ul><li>a</li></ul>''], listType = None, listItems = []\<rparr>"
proof -
  let ?st = "state_after [js ''- a'']"
  let ?s0 = "state_after []"
  let ?ls = "[js ''1. x'', js ''- a'', [], js ''- c'']"
  have t0: "listType ?s0 = None" by code_simp
  have k0: "line_kind (js ''- a'') = Some UL" by code_simp
  have v0: "?s0\<lparr>listType := Some UL, listItems := line_items (js ''- a'')\<rparr> =
              \<lparr>out = [], listType = Some UL, listItems = [js ''<li>a</li>'']\<rparr>" by code_simp
  have o: "open_lines ?ls = [js ''- a'', js ''- c'']" by code_simp
  have vo: "concat (map line_items [js ''- a'', js ''- c'']) = [js ''<li>a</li>'', js ''<li>c</li>'']"
    by code_simp
  have t: "listType ?st = Some UL" by code_simp
  have i: "listItems ?st \<noteq> []" by code_simp
  have k1: "line_kind (js ''1. b'') = Some OL" by code_simp
  have k2: "line_kind (js ''text'') = None" by code_simp
  have k3: "line_kind (js ''- c'') = Some UL" by code_simp
  have n: "\<not> list_all is_space (js ''text'')" by code_simp
  have s: "list_all is_space [0x20]" by (simp add: is_space_def)
  have v1: "out ?st @ [list_block (Some UL) (listItems ?st)] = [js ''<ul><li>a</li></ul>'']" by code_simp
  have v2: "line_items (js ''1. b'') = [js ''<li>b</li>'']" by code_simp
  have v3: "out ?st @ [list_block (listType ?st) (listItems ?st), line_block (js ''text'')] =
              [js ''<ul><li>a</li></ul>'', js ''<p>text</p>'']" by code_simp
  have v4: "?st\<lparr>listItems := listItems ?st @ line_items (js ''- c'')\<rparr> =
              \<lparr>out = [], listType = Some UL, listItems = [js ''<li>a</li>'', js ''<li>c</li>'']\<rparr>"
    by code_simp
  have v5: "out ?st @ [list_block (listType ?st) (listItems ?st)] = [js ''<ul><li>a</li></ul>'']"
    by code_simp
  from list_accumulator_flush[OF refl, where ls = "[]" and line = "js ''- a''" and k' = UL] t0 k0
  have z: "process_line ?s0 (js ''- a'') = ?s0\<lparr>listType := Some UL, listItems := line_items (js ''- a'')\<rparr>"
    by blast
  from list_accumulator_flush[OF refl, where ls = ?ls]
  have y: "listItems (state_after ?ls) = concat (map line_items (open_lines ?ls))" by blast
  from list_accumulator_flush[OF refl, where ls = "[js ''- a'']" and k = UL and line = "js ''1. b''" and k' = OL] t k1
  have a: "process_line ?st (js ''1. b'') =
          \<lparr>out = out ?st @ [list_block (Some UL) (listItems ?st)],
           listType = Some OL, listItems = line_items (js ''1. b'')\<rparr>" by blast
  from list_accumulator_flush[OF refl, where ls = "[js ''- a'']" and k = UL and line = "js ''text''"] i k2 n
  have b: "process_line ?st (js ''text'') =
          \<lparr>out = out ?st @ [list_block (listType ?st) (listItems ?st), line_block (js ''text'')],
           listType = None, listItems = []\<rparr>" by blast
  from list_accumulator_flush[OF refl, where ls = "[js ''- a'']" and k = UL and line = "js ''- c''"] t k3
  have c: "process_line ?st (js ''- c'') = ?st\<lparr>listItems := listItems ?st @ line_items (js ''- c'')\<rparr>"
    by blast
  from list_accumulator_flush[OF refl, where ls = "[js ''- a'']" and line = "[0x20]"] i s
  have d: "process_line ?st [0x20] = ?st" by blast
  from list_accumulator_flush[OF refl, where ls = "[js ''- a'']"] i
  have e: "flushList ?st =
          \<lparr>out = out ?st @ [list_block (listType ?st) (listItems ?st)],
           listType = None, listItems = []\<rparr>" by blast
  from z y a b c d e t0 k0 o t i k1 k2 k3 n s show ?thesis
    unfolding v0 o vo v1 v2 v3 v4 v5 by (intro conjI)
qed

text \<open>
  C7: the text \<open>- a\<close>, line feed, \<open>1. b\<close> gives two blocks, the unordered list with the item a and
  then the ordered list with the item b. In general, after any lines, a list line of the other
  kind first pushes the closed list of the items so far, and the accumulator then holds the items
  of the new line only, under the new kind.
\<close>

theorem switch_list_kind:
  "markdown_blocks (js ''- a'' @ [0x0A] @ js ''1. b'') =
     [js ''<ul><li>a</li></ul>'', js ''<ol><li>b</li></ol>''] \<and>
   renderMessageContent (Some (js ''- a'' @ [0x0A] @ js ''1. b'')) =
     js ''<ul><li>a</li></ul><ol><li>b</li></ol>'' \<and>
   (listType (state_after ls) = Some k \<and> line_kind line = Some k' \<and> k' \<noteq> k \<longrightarrow>
      listItems (state_after ls) \<noteq> [] \<and>
      out (process_line (state_after ls) line) =
        out (state_after ls) @ [list_block (Some k) (listItems (state_after ls))] \<and>
      listType (process_line (state_after ls) line) = Some k' \<and>
      listItems (process_line (state_after ls) line) = line_items line)"
proof -
  have 1: "markdown_blocks (js ''- a'' @ [0x0A] @ js ''1. b'') =
     [js ''<ul><li>a</li></ul>'', js ''<ol><li>b</li></ol>'']" by code_simp
  have 2: "renderMessageContent (Some (js ''- a'' @ [0x0A] @ js ''1. b'')) =
     js ''<ul><li>a</li></ul><ol><li>b</li></ol>''" by code_simp
  have 3: "listType (state_after ls) = Some k \<and> line_kind line = Some k' \<and> k' \<noteq> k \<longrightarrow>
      listItems (state_after ls) \<noteq> [] \<and>
      out (process_line (state_after ls) line) =
        out (state_after ls) @ [list_block (Some k) (listItems (state_after ls))] \<and>
      listType (process_line (state_after ls) line) = Some k' \<and>
      listItems (process_line (state_after ls) line) = line_items line"
  proof
    assume h: "listType (state_after ls) = Some k \<and> line_kind line = Some k' \<and> k' \<noteq> k"
    have c: "acc_consistent (state_after ls)" by (rule state_after_consistent)
    from h c have ne: "listItems (state_after ls) \<noteq> []" by (auto simp: acc_consistent_def)
    from h switch_kind[OF c, of k line k'] have
      "process_line (state_after ls) line =
         \<lparr>out = out (state_after ls) @ [list_block (Some k) (listItems (state_after ls))],
          listType = Some k', listItems = line_items line\<rparr>" by blast
    with ne show "listItems (state_after ls) \<noteq> [] \<and>
      out (process_line (state_after ls) line) =
        out (state_after ls) @ [list_block (Some k) (listItems (state_after ls))] \<and>
      listType (process_line (state_after ls) line) = Some k' \<and>
      listItems (process_line (state_after ls) line) = line_items line" by simp
  qed
  from 1 2 3 show ?thesis by blast
qed

theorem switch_list_kind_witness:
  "listType (state_after [js ''1. b'']) = Some OL \<and> line_kind (js ''- a'') = Some UL \<and>
   out (process_line (state_after [js ''1. b'']) (js ''- a'')) = [js ''<ol><li>b</li></ol>''] \<and>
   listType (process_line (state_after [js ''1. b'']) (js ''- a'')) = Some UL \<and>
   listItems (process_line (state_after [js ''1. b'']) (js ''- a'')) = [js ''<li>a</li>'']"
proof -
  let ?st = "state_after [js ''1. b'']"
  have t: "listType ?st = Some OL" by code_simp
  have k: "line_kind (js ''- a'') = Some UL" by code_simp
  have v1: "out ?st @ [list_block (Some OL) (listItems ?st)] = [js ''<ol><li>b</li></ol>'']" by code_simp
  have v2: "line_items (js ''- a'') = [js ''<li>a</li>'']" by code_simp
  from switch_list_kind[of "[js ''1. b'']" OL "js ''- a''" UL] t k
  have "out (process_line ?st (js ''- a'')) = out ?st @ [list_block (Some OL) (listItems ?st)] \<and>
      listType (process_line ?st (js ''- a'')) = Some UL \<and>
      listItems (process_line ?st (js ''- a'')) = line_items (js ''- a'')" by blast
  with t k show ?thesis unfolding v1 v2 by blast
qed

text \<open>
  C2: in \<open>Summary. 2. Second. 3. Third.\<close> the pre-pass puts a line feed in front of \<open>2.\<close> and
  of \<open>3.\<close>; the second and third line are ordered-list lines; the blocks are one paragraph and
  one ordered list with the items in the order of the input.
\<close>

theorem inline_list_one_block:
  "replace_all INLINE_OL_BREAK_at (js ''Summary. 2. Second. 3. Third.'') =
     js ''Summary.'' @ [0x0A] @ js ''2. Second.'' @ [0x0A] @ js ''3. Third.'' \<and>
   map line_kind (split_nl (replace_all INLINE_OL_BREAK_at (js ''Summary. 2. Second. 3. Third.''))) =
     [None, Some OL, Some OL] \<and>
   markdown_blocks (js ''Summary. 2. Second. 3. Third.'') =
     [js ''<p>Summary.</p>'', js ''<ol><li>Second.</li><li>Third.</li></ol>''] \<and>
   renderMessageContent (Some (js ''Summary. 2. Second. 3. Third.'')) =
     js ''<p>Summary.</p><ol><li>Second.</li><li>Third.</li></ol>''"
  by code_simp

section \<open>The pre-pass\<close>

lemma break_sound:
  assumes "INLINE_OL_BREAK_at s = Some (rep, rest)"
  shows "\<exists>ws ds d ws'. s = 0x2E # ws @ ds @ d # ws' @ rest \<and>
           rep = [0x2E, 0x0A] @ ds @ [0x2E, 0x20] \<and> marker_text ws ds d ws'"
proof -
  let ?f = "\<lambda>cap. js ''.'' @ [0x0A] @ cap @ js ''. ''"
  let ?tail = "plus_cap is_digit (\<lambda>cap. one is_delim (plus is_space (\<lambda>rest. Some (?f cap, rest))))"
  from assms obtain c r0 where
    0: "s = c # r0" "is_char 0x2E c" and k0: "plus is_space ?tail r0 = Some (rep, rest)"
    unfolding INLINE_OL_BREAK_at_def one_Some by blast
  from plus_sound[OF k0] obtain ws r1 where
    1: "r0 = ws @ r1" "ws \<noteq> []" "list_all is_space ws" and k1: "?tail r1 = Some (rep, rest)"
    by blast
  from marker_tail_sound[of ?f, OF k1] obtain ds d ws' where
    2: "r1 = ds @ d # ws' @ rest" "rep = ?f ds" "ds \<noteq> []" "list_all is_digit ds" "is_delim d"
       "ws' \<noteq> []" "list_all is_space ws'" by blast
  from 0 1 2 have "s = 0x2E # ws @ ds @ d # ws' @ rest \<and>
           rep = [0x2E, 0x0A] @ ds @ [0x2E, 0x20] \<and> marker_text ws ds d ws'"
    by (simp add: marker_text_def is_char_def js_def)
  then show ?thesis by blast
qed

lemma break_needs_period: "c \<noteq> 0x2E \<Longrightarrow> INLINE_OL_BREAK_at (c # r) = None"
  by (simp add: INLINE_OL_BREAK_at_def one_def is_char_def)

lemma break_empty: "INLINE_OL_BREAK_at [] = None"
  by (simp add: INLINE_OL_BREAK_at_def one_def)

lemma prepass_segments:
  "m = INLINE_OL_BREAK_at \<Longrightarrow>
     \<exists>segs. s = concat (map seg_src segs) \<and> replace_all m s = concat (map seg_dst segs) \<and>
            list_all seg_ok segs"
proof (induction m s rule: replace_all.induct)
  case (1 m)
  then have "[] = concat (map seg_src []) \<and> replace_all m [] = concat (map seg_dst []) \<and>
            list_all seg_ok []" by (simp add: break_empty)
  then show ?case by blast
next
  case (2 m c r)
  note m = \<open>m = INLINE_OL_BREAK_at\<close>
  show ?case
  proof (cases "m (c # r)")
    case None
    from 2(1)[OF None m] obtain segs where
      s: "r = concat (map seg_src segs)" "replace_all m r = concat (map seg_dst segs)"
         "list_all seg_ok segs" by blast
    with None have "c # r = concat (map seg_src (Keep [c] # segs)) \<and>
        replace_all m (c # r) = concat (map seg_dst (Keep [c] # segs)) \<and>
        list_all seg_ok (Keep [c] # segs)" by simp
    then show ?thesis by blast
  next
    case (Some a)
    obtain rep rest where a: "a = (rep, rest)" by (cases a)
    from Some a m have "INLINE_OL_BREAK_at (c # r) = Some (rep, rest)" by simp
    from break_sound[OF this] obtain ws ds d ws' where
      b: "c # r = 0x2E # ws @ ds @ d # ws' @ rest" "rep = [0x2E, 0x0A] @ ds @ [0x2E, 0x20]"
         "marker_text ws ds d ws'" by blast
    from b(1) have "length (c # r) = length (0x2E # ws @ ds @ d # ws' @ rest)" by simp
    then have len: "length rest \<le> length r" by simp
    from 2(2)[OF Some a[symmetric] len m] obtain segs where
      s: "rest = concat (map seg_src segs)" "replace_all m rest = concat (map seg_dst segs)"
         "list_all seg_ok segs" by blast
    from Some a len have "replace_all m (c # r) = rep @ replace_all m rest" by simp
    with s b have "c # r = concat (map seg_src (Break ws ds d ws' # segs)) \<and>
        replace_all m (c # r) = concat (map seg_dst (Break ws ds d ws' # segs)) \<and>
        list_all seg_ok (Break ws ds d ws' # segs)" by simp
    then show ?thesis by blast
  qed
qed

lemma prepass_keeps_prefix:
  "list_all (\<lambda>c. c \<noteq> 0x2E) p \<Longrightarrow>
     replace_all INLINE_OL_BREAK_at (p @ r) = p @ replace_all INLINE_OL_BREAK_at r"
  by (induction p) (simp_all add: break_needs_period)

lemma marker_tail_complete:
  assumes "ds \<noteq> []" "list_all is_digit ds" "is_delim d" "ws' \<noteq> []" "list_all is_space ws'"
          "rest = [] \<or> \<not> is_space (hd rest)"
  shows "plus_cap is_digit (\<lambda>cap. one is_delim (plus is_space (\<lambda>rest. Some (f cap, rest))))
           (ds @ d # ws' @ rest) = Some (f ds, rest)"
proof -
  have "plus is_space (\<lambda>rest. Some (f ds, rest)) (ws' @ rest) = Some (f ds, rest)"
    using assms(4,5,6) by (intro plus_greedy) simp_all
  then have "one is_delim (plus is_space (\<lambda>rest. Some (f ds, rest))) (d # ws' @ rest) = Some (f ds, rest)"
    using assms(3) by (simp add: one_def)
  then show ?thesis
    using assms(1,2,3) delim_not_digit[of d]
    by (intro plus_cap_greedy) simp_all
qed

lemma break_complete:
  assumes "marker_text ws ds d ws'" "rest = [] \<or> \<not> is_space (hd rest)"
  shows "INLINE_OL_BREAK_at (0x2E # ws @ ds @ d # ws' @ rest) =
           Some ([0x2E, 0x0A] @ ds @ [0x2E, 0x20], rest)"
proof -
  let ?f = "\<lambda>cap. js ''.'' @ [0x0A] @ cap @ js ''. ''"
  let ?tail = "plus_cap is_digit (\<lambda>cap. one is_delim (plus is_space (\<lambda>rest. Some (?f cap, rest))))"
  from assms have m: "ws \<noteq> []" "list_all is_space ws" "ds \<noteq> []" "list_all is_digit ds" "is_delim d"
    "ws' \<noteq> []" "list_all is_space ws'" by (simp_all add: marker_text_def)
  have t: "?tail (ds @ d # ws' @ rest) = Some (?f ds, rest)"
    using m(3-7) assms(2) by (rule marker_tail_complete)
  from m(3,4) have "\<not> is_space (hd (ds @ d # ws' @ rest))"
    using space_not_digit by (cases ds) auto
  then have "plus is_space ?tail (ws @ (ds @ d # ws' @ rest)) = Some (?f ds, rest)"
    using m(1,2) t by (intro plus_greedy) simp_all
  then show ?thesis by (simp add: INLINE_OL_BREAK_at_def one_def is_char_def js_def)
qed

lemma break_rewritten:
  assumes "marker_text ws ds d ws'" "rest = [] \<or> \<not> is_space (hd rest)"
  shows "replace_all INLINE_OL_BREAK_at (0x2E # ws @ ds @ d # ws' @ rest) =
           [0x2E, 0x0A] @ ds @ [0x2E, 0x20] @ replace_all INLINE_OL_BREAK_at rest"
proof -
  have "replace_all INLINE_OL_BREAK_at (0x2E # (ws @ ds @ d # ws' @ rest)) =
          ([0x2E, 0x0A] @ ds @ [0x2E, 0x20]) @ replace_all INLINE_OL_BREAK_at rest"
    using break_complete[OF assms] by (rule replace_all_match) simp
  then show ?thesis by simp
qed

text \<open>
  What the pre-pass rewrites: every text is a sequence of stretches that the pre-pass copies and
  stretches that it rewrites; a rewritten stretch is a period, white space, digits, a period or
  closing parenthesis, and white space, and it becomes the period, a line feed, the digits, a
  period and a space. A beginning without a period is copied. A stretch of this shape that
  stands where the scan has arrived, with no more white space behind it, is rewritten.
\<close>

lemma prepass_rewrites:
  "(\<exists>segs. text = concat (map seg_src segs) \<and>
           replace_all INLINE_OL_BREAK_at text = concat (map seg_dst segs) \<and>
           list_all seg_ok segs) \<and>
   (list_all (\<lambda>c. c \<noteq> 0x2E) p \<longrightarrow>
      replace_all INLINE_OL_BREAK_at (p @ r) = p @ replace_all INLINE_OL_BREAK_at r) \<and>
   (list_all is_digit ds \<longrightarrow>
      replace_all INLINE_OL_BREAK_at (ds @ r) = ds @ replace_all INLINE_OL_BREAK_at r) \<and>
   (marker_text ws ds d ws' \<and> (rest = [] \<or> \<not> is_space (hd rest)) \<longrightarrow>
      replace_all INLINE_OL_BREAK_at (0x2E # ws @ ds @ d # ws' @ rest) =
        [0x2E, 0x0A] @ ds @ [0x2E, 0x20] @ replace_all INLINE_OL_BREAK_at rest)"
proof -
  have 1: "\<exists>segs. text = concat (map seg_src segs) \<and>
           replace_all INLINE_OL_BREAK_at text = concat (map seg_dst segs) \<and>
           list_all seg_ok segs"
    using prepass_segments[OF refl] .
  have 2: "list_all (\<lambda>c. c \<noteq> 0x2E) p \<longrightarrow>
      replace_all INLINE_OL_BREAK_at (p @ r) = p @ replace_all INLINE_OL_BREAK_at r"
    using prepass_keeps_prefix by blast
  have 3: "list_all is_digit ds \<longrightarrow>
      replace_all INLINE_OL_BREAK_at (ds @ r) = ds @ replace_all INLINE_OL_BREAK_at r"
  proof
    assume "list_all is_digit ds"
    then have "list_all (\<lambda>c. c \<noteq> 0x2E) ds"
      using digit_not_period by (auto simp: list_all_iff is_char_def)
    then show "replace_all INLINE_OL_BREAK_at (ds @ r) = ds @ replace_all INLINE_OL_BREAK_at r"
      by (rule prepass_keeps_prefix)
  qed
  have 4: "marker_text ws ds d ws' \<and> (rest = [] \<or> \<not> is_space (hd rest)) \<longrightarrow>
      replace_all INLINE_OL_BREAK_at (0x2E # ws @ ds @ d # ws' @ rest) =
        [0x2E, 0x0A] @ ds @ [0x2E, 0x20] @ replace_all INLINE_OL_BREAK_at rest"
    using break_rewritten by blast
  from 1 2 3 4 show ?thesis by (intro conjI)
qed


section \<open>Inline markers in an ordered-list item\<close>










section \<open>Inline formatting\<close>

subsection \<open>The inline patterns\<close>

lemma bold_sound:
  assumes "bold_at s = Some (rep, rest)"
  shows "\<exists>x. s = js ''**'' @ x @ js ''**'' @ rest \<and> x \<noteq> [] \<and> list_all (not_char 0x2A) x \<and>
           rep = js ''<'' @ js ''strong'' @ js ''>'' @ x @ js ''</'' @ js ''strong'' @ js ''>''"
proof -
  let ?k = "\<lambda>cap. one (is_char 0x2A) (one (is_char 0x2A) (\<lambda>rest.
         Some (js ''<strong>'' @ cap @ js ''</strong>'', rest)))"
  from assms obtain c1 c2 r0 where
    0: "s = c1 # c2 # r0" "is_char 0x2A c1" "is_char 0x2A c2"
    and k0: "plus_cap (not_char 0x2A) ?k r0 = Some (rep, rest)"
    unfolding bold_at_def one_Some by blast
  from plus_cap_sound[OF k0] obtain x r1 where
    1: "r0 = x @ r1" "x \<noteq> []" "list_all (not_char 0x2A) x" and k1: "?k x r1 = Some (rep, rest)"
    by blast
  from k1 obtain c3 c4 where
    2: "r1 = c3 # c4 # rest" "is_char 0x2A c3" "is_char 0x2A c4"
       "rep = js ''<strong>'' @ x @ js ''</strong>''"
    unfolding one_Some by auto
  from 0 1 2 have "s = js ''**'' @ x @ js ''**'' @ rest \<and> x \<noteq> [] \<and> list_all (not_char 0x2A) x \<and>
           rep = js ''<'' @ js ''strong'' @ js ''>'' @ x @ js ''</'' @ js ''strong'' @ js ''>''"
    by (simp add: is_char_def js_def)
  then show ?thesis by blast
qed

lemma italic_sound:
  assumes "italic_at s = Some (rep, rest)"
  shows "\<exists>x. s = js ''*'' @ x @ js ''*'' @ rest \<and> x \<noteq> [] \<and> list_all (not_char 0x2A) x \<and>
           rep = js ''<'' @ js ''em'' @ js ''>'' @ x @ js ''</'' @ js ''em'' @ js ''>''"
proof -
  let ?k = "\<lambda>cap. one (is_char 0x2A) (\<lambda>rest. Some (js ''<em>'' @ cap @ js ''</em>'', rest))"
  from assms obtain c1 r0 where
    0: "s = c1 # r0" "is_char 0x2A c1"
    and k0: "plus_cap (not_char 0x2A) ?k r0 = Some (rep, rest)"
    unfolding italic_at_def one_Some by blast
  from plus_cap_sound[OF k0] obtain x r1 where
    1: "r0 = x @ r1" "x \<noteq> []" "list_all (not_char 0x2A) x" and k1: "?k x r1 = Some (rep, rest)"
    by blast
  from k1 obtain c3 where
    2: "r1 = c3 # rest" "is_char 0x2A c3" "rep = js ''<em>'' @ x @ js ''</em>''"
    unfolding one_Some by auto
  from 0 1 2 have "s = js ''*'' @ x @ js ''*'' @ rest \<and> x \<noteq> [] \<and> list_all (not_char 0x2A) x \<and>
           rep = js ''<'' @ js ''em'' @ js ''>'' @ x @ js ''</'' @ js ''em'' @ js ''>''"
    by (simp add: is_char_def js_def)
  then show ?thesis by blast
qed

lemma code_sound:
  assumes "code_at s = Some (rep, rest)"
  shows "\<exists>x. s = js ''`'' @ x @ js ''`'' @ rest \<and> x \<noteq> [] \<and> list_all (not_char 0x60) x \<and>
           rep = js ''<'' @ js ''code'' @ js ''>'' @ x @ js ''</'' @ js ''code'' @ js ''>''"
proof -
  let ?k = "\<lambda>cap. one (is_char 0x60) (\<lambda>rest. Some (js ''<code>'' @ cap @ js ''</code>'', rest))"
  from assms obtain c1 r0 where
    0: "s = c1 # r0" "is_char 0x60 c1"
    and k0: "plus_cap (not_char 0x60) ?k r0 = Some (rep, rest)"
    unfolding code_at_def one_Some by blast
  from plus_cap_sound[OF k0] obtain x r1 where
    1: "r0 = x @ r1" "x \<noteq> []" "list_all (not_char 0x60) x" and k1: "?k x r1 = Some (rep, rest)"
    by blast
  from k1 obtain c3 where
    2: "r1 = c3 # rest" "is_char 0x60 c3" "rep = js ''<code>'' @ x @ js ''</code>''"
    unfolding one_Some by auto
  from 0 1 2 have "s = js ''`'' @ x @ js ''`'' @ rest \<and> x \<noteq> [] \<and> list_all (not_char 0x60) x \<and>
           rep = js ''<'' @ js ''code'' @ js ''>'' @ x @ js ''</'' @ js ''code'' @ js ''>''"
    by (simp add: is_char_def js_def)
  then show ?thesis by blast
qed

lemma replace_all_spans:
  assumes "\<And>s rep rest. m s = Some (rep, rest) \<Longrightarrow>
             \<exists>x. s = delim @ x @ delim @ rest \<and> x \<noteq> [] \<and> list_all (not_char q) x \<and>
                 rep = js ''<'' @ tag @ js ''>'' @ x @ js ''</'' @ tag @ js ''>''"
  shows "\<exists>segs. s = concat (map (iseg_src delim) segs) \<and>
               replace_all m s = concat (map (iseg_dst tag) segs) \<and> list_all (iseg_ok q) segs \<and>
               leftmost_spans m delim segs"
  using assms
proof (induction m s rule: replace_all.induct)
  case (1 m)
  have "m [] = None"
  proof (cases "m []")
    case (Some a)
    obtain rep rest where "a = (rep, rest)" by (cases a)
    with Some 1 obtain x where "[] = delim @ x @ delim @ rest" "x \<noteq> []" by blast
    then show ?thesis by simp
  qed simp
  then have "[] = concat (map (iseg_src delim) []) \<and>
               replace_all m [] = concat (map (iseg_dst tag) []) \<and> list_all (iseg_ok q) [] \<and>
               leftmost_spans m delim []" by simp
  then show ?case by blast
next
  case (2 m c r)
  note sound = 2(4)
  show ?case
  proof (cases "m (c # r)")
    case None
    from 2(1)[OF None sound] obtain segs where
      s: "r = concat (map (iseg_src delim) segs)" "replace_all m r = concat (map (iseg_dst tag) segs)"
         "list_all (iseg_ok q) segs" "leftmost_spans m delim segs" by blast
    with None have "c # r = concat (map (iseg_src delim) (Plain [c] # segs)) \<and>
        replace_all m (c # r) = concat (map (iseg_dst tag) (Plain [c] # segs)) \<and>
        list_all (iseg_ok q) (Plain [c] # segs) \<and> leftmost_spans m delim (Plain [c] # segs)" by simp
    then show ?thesis by blast
  next
    case (Some a)
    obtain rep rest where a: "a = (rep, rest)" by (cases a)
    from Some a have ma: "m (c # r) = Some (rep, rest)" by simp
    from sound[OF this] obtain x where
      b: "c # r = delim @ x @ delim @ rest" "x \<noteq> []" "list_all (not_char q) x"
         "rep = js ''<'' @ tag @ js ''>'' @ x @ js ''</'' @ tag @ js ''>''" by blast
    from b(1) have "length (c # r) = length (delim @ x @ delim @ rest)" by simp
    with b(2) have len: "length rest \<le> length r" by (cases x) auto
    from 2(2)[OF Some a[symmetric] len sound] obtain segs where
      s: "rest = concat (map (iseg_src delim) segs)"
         "replace_all m rest = concat (map (iseg_dst tag) segs)"
         "list_all (iseg_ok q) segs" "leftmost_spans m delim segs" by blast
    from Some a len have ra: "replace_all m (c # r) = rep @ replace_all m rest" by simp
    from s b have src: "concat (map (iseg_src delim) (Span x # segs)) = c # r" by simp
    from ma src have "m (concat (map (iseg_src delim) (Span x # segs))) \<noteq> None" by simp
    with s have lm: "leftmost_spans m delim (Span x # segs)" by simp
    from ra s b have "replace_all m (c # r) = concat (map (iseg_dst tag) (Span x # segs))" by simp
    with src s b lm have "c # r = concat (map (iseg_src delim) (Span x # segs)) \<and>
        replace_all m (c # r) = concat (map (iseg_dst tag) (Span x # segs)) \<and>
        list_all (iseg_ok q) (Span x # segs) \<and> leftmost_spans m delim (Span x # segs)"
      by (simp del: leftmost_spans.simps)
    then show ?thesis by blast
  qed
qed

lemma bold_spans:
  "\<exists>segs. str = concat (map (iseg_src (js ''**'')) segs) \<and>
          replace_all bold_at str = concat (map (iseg_dst (js ''strong'')) segs) \<and>
          list_all (iseg_ok 0x2A) segs \<and> leftmost_spans bold_at (js ''**'') segs"
  by (rule replace_all_spans) (rule bold_sound)

lemma italic_spans:
  "\<exists>segs. str = concat (map (iseg_src (js ''*'')) segs) \<and>
          replace_all italic_at str = concat (map (iseg_dst (js ''em'')) segs) \<and>
          list_all (iseg_ok 0x2A) segs \<and> leftmost_spans italic_at (js ''*'') segs"
  by (rule replace_all_spans) (rule italic_sound)

lemma code_spans:
  "\<exists>segs. str = concat (map (iseg_src (js ''`'')) segs) \<and>
          replace_all code_at str = concat (map (iseg_dst (js ''code'')) segs) \<and>
          list_all (iseg_ok 0x60) segs \<and> leftmost_spans code_at (js ''`'') segs"
  by (rule replace_all_spans) (rule code_sound)

subsection \<open>A single asterisk\<close>

lemma bold_needs_asterisks: "count_list s 0x2A \<le> 1 \<Longrightarrow> bold_at s = None"
proof (rule ccontr)
  assume c: "count_list s 0x2A \<le> 1" and "bold_at s \<noteq> None"
  then obtain rep rest where "bold_at s = Some (rep, rest)" by (cases "bold_at s") auto
  from bold_sound[OF this] obtain x where "s = js ''**'' @ x @ js ''**'' @ rest" by blast
  then have "count_list s 0x2A \<ge> 2" by (simp add: js_def)
  with c show False by simp
qed

lemma italic_needs_asterisks: "count_list s 0x2A \<le> 1 \<Longrightarrow> italic_at s = None"
proof (rule ccontr)
  assume c: "count_list s 0x2A \<le> 1" and "italic_at s \<noteq> None"
  then obtain rep rest where "italic_at s = Some (rep, rest)" by (cases "italic_at s") auto
  from italic_sound[OF this] obtain x where "s = js ''*'' @ x @ js ''*'' @ rest" by blast
  then have "count_list s 0x2A \<ge> 2" by (simp add: js_def)
  with c show False by simp
qed

lemma bold_single_asterisk: "count_list s 0x2A \<le> 1 \<Longrightarrow> replace_all bold_at s = s"
proof (induction s)
  case Nil
  then show ?case by (simp add: bold_needs_asterisks)
next
  case (Cons c s)
  from Cons.prems have "bold_at (c # s) = None" by (rule bold_needs_asterisks)
  moreover from Cons.prems have "count_list s 0x2A \<le> 1" by (simp split: if_splits)
  ultimately show ?case using Cons.IH by simp
qed

lemma italic_single_asterisk: "count_list s 0x2A \<le> 1 \<Longrightarrow> replace_all italic_at s = s"
proof (induction s)
  case Nil
  then show ?case by (simp add: italic_needs_asterisks)
next
  case (Cons c s)
  from Cons.prems have "italic_at (c # s) = None" by (rule italic_needs_asterisks)
  moreover from Cons.prems have "count_list s 0x2A \<le> 1" by (simp split: if_splits)
  ultimately show ?case using Cons.IH by simp
qed

lemma count_list_concat:
  "count_list (concat xss) a = sum_list (map (\<lambda>xs. count_list xs a) xss)"
  by (induction xss) simp_all

lemma code_seg_asterisks:
  "count_list (iseg_dst (js ''code'') g) 0x2A = count_list (iseg_src (js ''`'') g) 0x2A"
  by (cases g) (simp_all add: js_def)

lemma code_keeps_asterisks: "count_list (replace_all code_at s) 0x2A = count_list s 0x2A"
proof -
  from code_spans[of s] obtain segs where
    s: "s = concat (map (iseg_src (js ''`'')) segs)"
       "replace_all code_at s = concat (map (iseg_dst (js ''code'')) segs)" by blast
  have "count_list (concat (map (iseg_dst (js ''code'')) segs)) 0x2A =
        count_list (concat (map (iseg_src (js ''`'')) segs)) 0x2A"
    by (simp add: count_list_concat comp_def code_seg_asterisks)
  with s show ?thesis by simp
qed

subsection \<open>A span at the place of the scan is rewritten\<close>

lemma bold_complete:
  assumes "x \<noteq> []" "list_all (not_char 0x2A) x"
  shows "bold_at (js ''**'' @ x @ js ''**'' @ rest) = Some (js ''<strong>'' @ x @ js ''</strong>'', rest)"
proof -
  let ?k = "\<lambda>cap. one (is_char 0x2A) (one (is_char 0x2A) (\<lambda>rest.
         Some (js ''<strong>'' @ cap @ js ''</strong>'', rest)))"
  have "?k x (js ''**'' @ rest) = Some (js ''<strong>'' @ x @ js ''</strong>'', rest)"
    by (simp add: js_def one_def is_char_def)
  then have "plus_cap (not_char 0x2A) ?k (x @ js ''**'' @ rest) =
      Some (js ''<strong>'' @ x @ js ''</strong>'', rest)"
    using assms by (intro plus_cap_greedy) (simp_all add: js_def not_char_def)
  then show ?thesis by (simp add: bold_at_def js_def one_def is_char_def)
qed

lemma italic_complete:
  assumes "x \<noteq> []" "list_all (not_char 0x2A) x"
  shows "italic_at (js ''*'' @ x @ js ''*'' @ rest) = Some (js ''<em>'' @ x @ js ''</em>'', rest)"
proof -
  let ?k = "\<lambda>cap. one (is_char 0x2A) (\<lambda>rest. Some (js ''<em>'' @ cap @ js ''</em>'', rest))"
  have "?k x (js ''*'' @ rest) = Some (js ''<em>'' @ x @ js ''</em>'', rest)"
    by (simp add: js_def one_def is_char_def)
  then have "plus_cap (not_char 0x2A) ?k (x @ js ''*'' @ rest) =
      Some (js ''<em>'' @ x @ js ''</em>'', rest)"
    using assms by (intro plus_cap_greedy) (simp_all add: js_def not_char_def)
  then show ?thesis by (simp add: italic_at_def js_def one_def is_char_def)
qed

lemma code_complete:
  assumes "x \<noteq> []" "list_all (not_char 0x60) x"
  shows "code_at (js ''`'' @ x @ js ''`'' @ rest) = Some (js ''<code>'' @ x @ js ''</code>'', rest)"
proof -
  let ?k = "\<lambda>cap. one (is_char 0x60) (\<lambda>rest. Some (js ''<code>'' @ cap @ js ''</code>'', rest))"
  have "?k x (js ''`'' @ rest) = Some (js ''<code>'' @ x @ js ''</code>'', rest)"
    by (simp add: js_def one_def is_char_def)
  then have "plus_cap (not_char 0x60) ?k (x @ js ''`'' @ rest) =
      Some (js ''<code>'' @ x @ js ''</code>'', rest)"
    using assms by (intro plus_cap_greedy) (simp_all add: js_def not_char_def)
  then show ?thesis by (simp add: code_at_def js_def one_def is_char_def)
qed

lemma bold_span_replaced:
  assumes "x \<noteq> []" "list_all (not_char 0x2A) x"
  shows "replace_all bold_at (js ''**'' @ x @ js ''**'' @ rest) =
           js ''<strong>'' @ x @ js ''</strong>'' @ replace_all bold_at rest"
proof -
  have e: "js ''**'' @ x @ js ''**'' @ rest = 0x2A # (0x2A # x @ js ''**'' @ rest)"
    by (simp add: js_def)
  have "replace_all bold_at (0x2A # (0x2A # x @ js ''**'' @ rest)) =
          (js ''<strong>'' @ x @ js ''</strong>'') @ replace_all bold_at rest"
    using bold_complete[OF assms, of rest] unfolding e
    by (rule replace_all_match) (simp add: js_def)
  then show ?thesis unfolding e by simp
qed

lemma italic_span_replaced:
  assumes "x \<noteq> []" "list_all (not_char 0x2A) x"
  shows "replace_all italic_at (js ''*'' @ x @ js ''*'' @ rest) =
           js ''<em>'' @ x @ js ''</em>'' @ replace_all italic_at rest"
proof -
  have e: "js ''*'' @ x @ js ''*'' @ rest = 0x2A # (x @ js ''*'' @ rest)"
    by (simp add: js_def)
  have "replace_all italic_at (0x2A # (x @ js ''*'' @ rest)) =
          (js ''<em>'' @ x @ js ''</em>'') @ replace_all italic_at rest"
    using italic_complete[OF assms, of rest] unfolding e
    by (rule replace_all_match) (simp add: js_def)
  then show ?thesis unfolding e by simp
qed

lemma code_span_replaced:
  assumes "x \<noteq> []" "list_all (not_char 0x60) x"
  shows "replace_all code_at (js ''`'' @ x @ js ''`'' @ rest) =
           js ''<code>'' @ x @ js ''</code>'' @ replace_all code_at rest"
proof -
  have e: "js ''`'' @ x @ js ''`'' @ rest = 0x60 # (x @ js ''`'' @ rest)"
    by (simp add: js_def)
  have "replace_all code_at (0x60 # (x @ js ''`'' @ rest)) =
          (js ''<code>'' @ x @ js ''</code>'') @ replace_all code_at rest"
    using code_complete[OF assms, of rest] unfolding e
    by (rule replace_all_match) (simp add: js_def)
  then show ?thesis unfolding e by simp
qed

subsection \<open>The three substitutions\<close>

lemma replace_all_no_match: "m (c # r) = None \<Longrightarrow> replace_all m (c # r) = c # replace_all m r"
  by simp

lemma bold_empty: "replace_all bold_at [] = []"
  by (simp add: bold_at_def one_def)

lemma italic_empty: "replace_all italic_at [] = []"
  by (simp add: italic_at_def one_def)

lemma code_empty: "replace_all code_at [] = []"
  by (simp add: code_at_def one_def)

text \<open>
  C8: inline formatting is the bold substitution, then the italic substitution, then the
  inline-code substitution. Each is applied to all matches from the left without overlap: the
  string is a sequence of stretches copied as they are and of spans, a span being a non-empty
  text without the delimiter character between two delimiters, which comes out between the
  opening and the closing tag; no match of the pattern begins inside a copied stretch, and every
  span is a match. Step by step: where the pattern does not match, the code unit is copied and
  the scan goes on behind it; where a span stands, the pattern matches it, it is rewritten, and
  the scan goes on behind it; at the end nothing is added.
  The text \<open>**bold**\<close> gives the single block \<open><p><strong>bold</strong></p>\<close>; with the italic
  substitution first it would give \<open>*<em>bold</em>*\<close>. A string with at most one asterisk is
  left as it is by the bold and the italic substitution, and the asterisk stays in the result.
\<close>

theorem inline_format_order:
  "inlineFormat str = replace_all code_at (replace_all italic_at (replace_all bold_at str)) \<and>
   (\<exists>segs. str = concat (map (iseg_src (js ''**'')) segs) \<and>
          replace_all bold_at str = concat (map (iseg_dst (js ''strong'')) segs) \<and>
          list_all (iseg_ok 0x2A) segs \<and> leftmost_spans bold_at (js ''**'') segs) \<and>
   (\<exists>segs. str = concat (map (iseg_src (js ''*'')) segs) \<and>
          replace_all italic_at str = concat (map (iseg_dst (js ''em'')) segs) \<and>
          list_all (iseg_ok 0x2A) segs \<and> leftmost_spans italic_at (js ''*'') segs) \<and>
   (\<exists>segs. str = concat (map (iseg_src (js ''`'')) segs) \<and>
          replace_all code_at str = concat (map (iseg_dst (js ''code'')) segs) \<and>
          list_all (iseg_ok 0x60) segs \<and> leftmost_spans code_at (js ''`'') segs) \<and>
   replace_all bold_at [] = [] \<and> replace_all italic_at [] = [] \<and> replace_all code_at [] = [] \<and>
   (bold_at (c # r) = None \<longrightarrow> replace_all bold_at (c # r) = c # replace_all bold_at r) \<and>
   (italic_at (c # r) = None \<longrightarrow> replace_all italic_at (c # r) = c # replace_all italic_at r) \<and>
   (code_at (c # r) = None \<longrightarrow> replace_all code_at (c # r) = c # replace_all code_at r) \<and>
   (x \<noteq> [] \<and> list_all (not_char 0x2A) x \<longrightarrow>
      bold_at (js ''**'' @ x @ js ''**'' @ rest) = Some (js ''<strong>'' @ x @ js ''</strong>'', rest) \<and>
      replace_all bold_at (js ''**'' @ x @ js ''**'' @ rest) =
        js ''<strong>'' @ x @ js ''</strong>'' @ replace_all bold_at rest \<and>
      italic_at (js ''*'' @ x @ js ''*'' @ rest) = Some (js ''<em>'' @ x @ js ''</em>'', rest) \<and>
      replace_all italic_at (js ''*'' @ x @ js ''*'' @ rest) =
        js ''<em>'' @ x @ js ''</em>'' @ replace_all italic_at rest) \<and>
   (x \<noteq> [] \<and> list_all (not_char 0x60) x \<longrightarrow>
      code_at (js ''`'' @ x @ js ''`'' @ rest) = Some (js ''<code>'' @ x @ js ''</code>'', rest) \<and>
      replace_all code_at (js ''`'' @ x @ js ''`'' @ rest) =
        js ''<code>'' @ x @ js ''</code>'' @ replace_all code_at rest) \<and>
   markdown_blocks (js ''**bold**'') = [js ''<p><strong>bold</strong></p>''] \<and>
   renderMessageContent (Some (js ''**bold**'')) = js ''<p><strong>bold</strong></p>'' \<and>
   replace_all bold_at (replace_all italic_at (js ''**bold**'')) = js ''*<em>bold</em>*'' \<and>
   (count_list str 0x2A \<le> 1 \<longrightarrow>
      replace_all italic_at (replace_all bold_at str) = str \<and>
      count_list (inlineFormat str) 0x2A = count_list str 0x2A)"
proof -
  have 1: "inlineFormat str = replace_all code_at (replace_all italic_at (replace_all bold_at str))"
    by (simp add: inlineFormat_def)
  have n1: "bold_at (c # r) = None \<longrightarrow> replace_all bold_at (c # r) = c # replace_all bold_at r"
    using replace_all_no_match by blast
  have n2: "italic_at (c # r) = None \<longrightarrow> replace_all italic_at (c # r) = c # replace_all italic_at r"
    using replace_all_no_match by blast
  have n3: "code_at (c # r) = None \<longrightarrow> replace_all code_at (c # r) = c # replace_all code_at r"
    using replace_all_no_match by blast
  have 2: "x \<noteq> [] \<and> list_all (not_char 0x2A) x \<longrightarrow>
      bold_at (js ''**'' @ x @ js ''**'' @ rest) = Some (js ''<strong>'' @ x @ js ''</strong>'', rest) \<and>
      replace_all bold_at (js ''**'' @ x @ js ''**'' @ rest) =
        js ''<strong>'' @ x @ js ''</strong>'' @ replace_all bold_at rest \<and>
      italic_at (js ''*'' @ x @ js ''*'' @ rest) = Some (js ''<em>'' @ x @ js ''</em>'', rest) \<and>
      replace_all italic_at (js ''*'' @ x @ js ''*'' @ rest) =
        js ''<em>'' @ x @ js ''</em>'' @ replace_all italic_at rest"
    using bold_span_replaced italic_span_replaced bold_complete italic_complete by blast
  have 3: "x \<noteq> [] \<and> list_all (not_char 0x60) x \<longrightarrow>
      code_at (js ''`'' @ x @ js ''`'' @ rest) = Some (js ''<code>'' @ x @ js ''</code>'', rest) \<and>
      replace_all code_at (js ''`'' @ x @ js ''`'' @ rest) =
        js ''<code>'' @ x @ js ''</code>'' @ replace_all code_at rest"
    using code_span_replaced code_complete by blast
  have 5: "markdown_blocks (js ''**bold**'') = [js ''<p><strong>bold</strong></p>'']" by code_simp
  have 6: "renderMessageContent (Some (js ''**bold**'')) = js ''<p><strong>bold</strong></p>''"
    by code_simp
  have 7: "replace_all bold_at (replace_all italic_at (js ''**bold**'')) = js ''*<em>bold</em>*''"
    by code_simp
  have 8: "count_list str 0x2A \<le> 1 \<longrightarrow>
      replace_all italic_at (replace_all bold_at str) = str \<and>
      count_list (inlineFormat str) 0x2A = count_list str 0x2A"
    by (simp add: inlineFormat_def bold_single_asterisk italic_single_asterisk code_keeps_asterisks)
  from 1 bold_spans[of str] italic_spans[of str] code_spans[of str]
       bold_empty italic_empty code_empty n1 n2 n3 2 3 5 6 7 8
  show ?thesis by (intro conjI)
qed

theorem inline_format_order_witness:
  "count_list (js ''a * b'') 0x2A \<le> 1 \<and>
   replace_all italic_at (replace_all bold_at (js ''a * b'')) = js ''a * b'' \<and>
   count_list (inlineFormat (js ''a * b'')) 0x2A = 1 \<and>
   renderMessageContent (Some (js ''a * b'')) = js ''<p>a * b</p>'' \<and>
   js ''x'' \<noteq> [] \<and> list_all (not_char 0x2A) (js ''x'') \<and> list_all (not_char 0x60) (js ''x'') \<and>
   replace_all bold_at (js ''**'' @ js ''x'' @ js ''**'' @ js '' y'') =
     js ''<strong>'' @ js ''x'' @ js ''</strong>'' @ js '' y'' \<and>
   replace_all italic_at (js ''*'' @ js ''x'' @ js ''*'' @ js '' y'') =
     js ''<em>'' @ js ''x'' @ js ''</em>'' @ js '' y'' \<and>
   replace_all code_at (js ''`'' @ js ''x'' @ js ''`'' @ js '' y'') =
     js ''<code>'' @ js ''x'' @ js ''</code>'' @ js '' y'' \<and>
   bold_at (0x61 # js ''b **x** `y`'') = None \<and>
   italic_at (0x61 # js ''b **x** `y`'') = None \<and>
   code_at (0x61 # js ''b **x** `y`'') = None \<and>
   replace_all bold_at (0x61 # js ''b **x** `y`'') = 0x61 # js ''b <strong>x</strong> `y`'' \<and>
   replace_all italic_at (0x61 # js ''b **x** `y`'') = 0x61 # js ''b *<em>x</em>* `y`'' \<and>
   replace_all code_at (0x61 # js ''b **x** `y`'') = 0x61 # js ''b **x** <code>y</code>''"
proof -
  let ?r = "js ''b **x** `y`''"
  have h: "count_list (js ''a * b'') 0x2A \<le> 1" by code_simp
  have v: "count_list (js ''a * b'') 0x2A = 1" by code_simp
  have r: "renderMessageContent (Some (js ''a * b'')) = js ''<p>a * b</p>''" by code_simp
  have x1: "js ''x'' \<noteq> []" by code_simp
  have x2: "list_all (not_char 0x2A) (js ''x'')" by code_simp
  have x3: "list_all (not_char 0x60) (js ''x'')" by code_simp
  have y1: "replace_all bold_at (js '' y'') = js '' y''" by code_simp
  have y2: "replace_all italic_at (js '' y'') = js '' y''" by code_simp
  have y3: "replace_all code_at (js '' y'') = js '' y''" by code_simp
  have m1: "bold_at (0x61 # ?r) = None" by code_simp
  have m2: "italic_at (0x61 # ?r) = None" by code_simp
  have m3: "code_at (0x61 # ?r) = None" by code_simp
  have w1: "replace_all bold_at ?r = js ''b <strong>x</strong> `y`''" by code_simp
  have w2: "replace_all italic_at ?r = js ''b *<em>x</em>* `y`''" by code_simp
  have w3: "replace_all code_at ?r = js ''b **x** <code>y</code>''" by code_simp
  note t = inline_format_order[where str = "js ''a * b''" and x = "js ''x''" and rest = "js '' y''"
             and c = "0x61" and r = ?r]
  from t h
  have a: "replace_all italic_at (replace_all bold_at (js ''a * b'')) = js ''a * b'' \<and>
      count_list (inlineFormat (js ''a * b'')) 0x2A = count_list (js ''a * b'') 0x2A" by blast
  from t x1 x2
  have b: "replace_all bold_at (js ''**'' @ js ''x'' @ js ''**'' @ js '' y'') =
        js ''<strong>'' @ js ''x'' @ js ''</strong>'' @ replace_all bold_at (js '' y'') \<and>
      replace_all italic_at (js ''*'' @ js ''x'' @ js ''*'' @ js '' y'') =
        js ''<em>'' @ js ''x'' @ js ''</em>'' @ replace_all italic_at (js '' y'')" by blast
  from t x1 x3
  have c: "replace_all code_at (js ''`'' @ js ''x'' @ js ''`'' @ js '' y'') =
        js ''<code>'' @ js ''x'' @ js ''</code>'' @ replace_all code_at (js '' y'')" by blast
  from t m1 have d1: "replace_all bold_at (0x61 # ?r) = 0x61 # replace_all bold_at ?r" by blast
  from t m2 have d2: "replace_all italic_at (0x61 # ?r) = 0x61 # replace_all italic_at ?r" by blast
  from t m3 have d3: "replace_all code_at (0x61 # ?r) = 0x61 # replace_all code_at ?r" by blast
  from a b c d1 d2 d3 h r x1 x2 x3 m1 m2 m3 show ?thesis
    unfolding v y1 y2 y3 w1 w2 w3 by (intro conjI) blast+
qed

section \<open>Rendering twice\<close>

subsection \<open>Blocks begin with a tag the detector knows\<close>

lemma starts_with_iff: "starts_with p s \<longleftrightarrow> (\<exists>r. s = p @ r)"
  by (induction p s rule: starts_with.induct) auto

lemma same_name_ci_refl: "same_name_ci n n"
  by (simp add: same_name_ci_def)

lemma block_tags_names: "name \<in> set block_tags \<Longrightarrow> name \<in> set tag_names"
  by (auto simp: block_tags_def tag_names_def)

lemma tagged_block_boundary:
  assumes "tagged_block b"
  shows "has_tag_boundary (b @ r)"
proof -
  from assms obtain name where n: "name \<in> set block_tags" "starts_with (js ''<'' @ name @ js ''>'') b"
    by (auto simp: tagged_block_def list_ex_iff)
  from n(2) obtain r' where "b = (js ''<'' @ name @ js ''>'') @ r'"
    using starts_with_iff by blast
  then have b: "b @ r = [] @ js ''<'' @ name @ 0x3E # (r' @ r)" by (simp add: js_def)
  have "list_ex (same_name_ci name) tag_names"
    using block_tags_names[OF n(1)] same_name_ci_refl by (auto simp: list_ex_iff)
  with b show ?thesis unfolding has_tag_boundary_def by blast
qed

lemma tagged_list_block: "tagged_block (list_block (Some k) items)"
  by (cases k) (simp_all add: tagged_block_def block_tags_def list_block_def kind_name_def js_def)

lemma tagged_br: "tagged_block (js ''<br>'')"
  by (simp add: tagged_block_def block_tags_def js_def)

lemma tagged_paragraph: "tagged_block (paragraph_block line)"
  by (simp add: tagged_block_def block_tags_def paragraph_block_def js_def)

lemma tagged_heading:
  assumes "1 \<le> n" "n \<le> 6"
  shows "tagged_block (heading n content)"
proof -
  from assms have "n = 1 \<or> n = 2 \<or> n = 3 \<or> n = 4 \<or> n = 5 \<or> n = 6" by arith
  then show ?thesis
    by (elim disjE)
       (simp_all add: tagged_block_def block_tags_def heading_def js_def number_string.simps)
qed

lemma H_RE_level:
  assumes "H_RE_exec line = Some (hashes, content)"
  shows "1 \<le> length hashes \<and> length hashes \<le> 6"
proof -
  let ?k = "\<lambda>hashes. plus is_space (plus_cap is_dot (\<lambda>content rest. Some (hashes, content)))"
  from assms obtain c r where
    0: "line = c # r" and k0: "upto_cap 5 (is_char 0x23) [c] ?k r = Some (hashes, content)"
    by (cases line) (auto simp: H_RE_exec_def split: if_splits)
  from upto_cap_sound[OF k0] obtain w r1 where
    1: "length w \<le> 5" and k1: "?k ([c] @ w) r1 = Some (hashes, content)" by blast
  from plus_sound[OF k1] obtain r2 where
    k2: "plus_cap is_dot (\<lambda>content rest. Some ([c] @ w, content)) r2 = Some (hashes, content)"
    by blast
  from plus_cap_sound[OF k2] have "hashes = [c] @ w" by auto
  with 1 show ?thesis by simp
qed

lemma tagged_line_block: "tagged_block (line_block line)"
proof (cases "H_RE_exec line")
  case None
  then show ?thesis by (simp add: line_block_def tagged_paragraph)
next
  case (Some a)
  obtain hashes content where a: "a = (hashes, content)" by (cases a)
  with Some have "1 \<le> length hashes \<and> length hashes \<le> 6" using H_RE_level by blast
  then have "tagged_block (heading (length hashes) content)" using tagged_heading by blast
  with Some a show ?thesis by (simp add: line_block_def)
qed

subsection \<open>The blocks pushed by the loop\<close>

lemma flushList_tagged:
  assumes "blocks_tagged st"
  shows "list_all tagged_block (out (flushList st))"
proof (cases "listItems st = []")
  case True
  with assms show ?thesis by (simp add: flushList_def blocks_tagged_def)
next
  case False
  with assms obtain k where "listType st = Some k"
    by (cases "listType st") (auto simp: blocks_tagged_def acc_consistent_def)
  with False assms show ?thesis
    by (simp add: flushList_def blocks_tagged_def tagged_list_block)
qed

lemma process_other_block:
  "UL_RE_exec line = None \<Longrightarrow> OL_RE_exec line = None \<Longrightarrow> \<not> list_all is_space line \<Longrightarrow>
     process_line st line = (flushList st)\<lparr>out := out (flushList st) @ [line_block line]\<rparr>"
  by (simp add: process_other line_block_def Let_def)

lemma process_line_tagged:
  assumes "blocks_tagged st"
  shows "blocks_tagged (process_line st line)"
proof -
  from assms have c: "acc_consistent st" by (simp add: blocks_tagged_def)
  have c': "acc_consistent (process_line st line)" using c by (rule process_line_consistent)
  from assms have o: "list_all tagged_block (out st)" by (simp add: blocks_tagged_def)
  have f: "list_all tagged_block (out (flushList st))" using assms by (rule flushList_tagged)
  have "list_all tagged_block (out (process_line st line))"
  proof (cases "UL_RE_exec line")
    case (Some content)
    with o f show ?thesis by (simp add: process_UL Let_def)
  next
    case None
    show ?thesis
    proof (cases "OL_RE_exec line")
      case (Some content)
      with None o f show ?thesis by (simp add: process_OL Let_def)
    next
      case noOL: None
      show ?thesis
      proof (cases "list_all is_space line")
        case True
        with o f show ?thesis by (simp add: process_blank Let_def tagged_br)
      next
        case False
        with None noOL f show ?thesis by (simp add: process_other_block tagged_line_block)
      qed
    qed
  qed
  with c' show ?thesis by (simp add: blocks_tagged_def)
qed

lemma foldl_tagged: "blocks_tagged st \<Longrightarrow> blocks_tagged (foldl process_line st ls)"
  by (induction ls arbitrary: st) (auto intro: process_line_tagged)

lemma state_after_tagged: "blocks_tagged (state_after ls)"
  unfolding state_after_def
  by (rule foldl_tagged) (simp add: blocks_tagged_def acc_consistent_def init_state_def)

lemma process_line_progress:
  assumes "acc_consistent st"
  shows "out (process_line st line) \<noteq> [] \<or> listItems (process_line st line) \<noteq> []"
proof (cases "UL_RE_exec line")
  case (Some content)
  then show ?thesis by (simp add: process_UL Let_def)
next
  case None
  show ?thesis
  proof (cases "OL_RE_exec line")
    case (Some content)
    then have "ol_items content \<noteq> []" using OL_content_shape ol_items_nonempty by blast
    with None Some show ?thesis by (simp add: process_OL Let_def)
  next
    case noOL: None
    show ?thesis
    proof (cases "list_all is_space line")
      case True
      with assms show ?thesis by (auto simp: process_blank Let_def acc_consistent_def)
    next
      case False
      with None noOL show ?thesis by (simp add: process_other_block)
    qed
  qed
qed

lemma split_nl_nonempty: "split_nl s \<noteq> []"
  by (induction s) (auto split: list.splits)

lemma state_after_progress:
  assumes "ls \<noteq> []"
  shows "out (state_after ls) \<noteq> [] \<or> listItems (state_after ls) \<noteq> []"
proof -
  from assms obtain ls' l where "ls = ls' @ [l]" by (cases ls rule: rev_cases) auto
  then have "state_after ls = process_line (state_after ls') l" by (simp add: state_after_def)
  then show ?thesis using process_line_progress[OF state_after_consistent, of ls' l] by simp
qed

lemma markdown_blocks_tagged:
  "markdown_blocks text \<noteq> [] \<and> list_all tagged_block (markdown_blocks text)"
proof -
  let ?ls = "split_nl (replace_all INLINE_OL_BREAK_at text)"
  have m: "markdown_blocks text = out (flushList (state_after ?ls))"
    by (simp add: markdown_blocks_def state_after_def)
  have t: "list_all tagged_block (out (flushList (state_after ?ls)))"
    using state_after_tagged by (rule flushList_tagged)
  have "out (flushList (state_after ?ls)) \<noteq> []"
    using state_after_progress[OF split_nl_nonempty, of "replace_all INLINE_OL_BREAK_at text"]
    by (auto simp: flushList_def)
  with m t show ?thesis by simp
qed

lemma markdownToHtml_detected:
  "markdownToHtml text \<noteq> [] \<and> HTML_PATTERN_test (markdownToHtml text)"
proof -
  from markdown_blocks_tagged[of "text"] obtain b bs where
    bl: "markdown_blocks text = b # bs" "tagged_block b"
    by (cases "markdown_blocks text") auto
  then have h: "markdownToHtml text = b @ concat bs" by (simp add: markdownToHtml_def)
  from bl(2) have "has_tag_boundary (b @ concat bs)" by (rule tagged_block_boundary)
  then have d: "HTML_PATTERN_test (markdownToHtml text)" using h tag_boundary_detected by simp
  from bl(2) have "b \<noteq> []" by (auto simp: tagged_block_def list_ex_iff js_def)
  with h d show ?thesis by simp
qed

text \<open>
  C10: rendering twice gives what rendering once gives, for every argument. For every text the
  converter pushes at least one block, every block begins with one of the tags \<open><p>\<close>, \<open><br>\<close>,
  \<open><ul>\<close>, \<open><ol>\<close>, \<open><h1>\<close> to \<open><h6>\<close>, and so the result is not empty and the detector takes it
  for HTML.
\<close>

theorem render_idempotent:
  "renderMessageContent (Some (renderMessageContent t)) = renderMessageContent t \<and>
   markdown_blocks text \<noteq> [] \<and> list_all tagged_block (markdown_blocks text) \<and>
   markdownToHtml text \<noteq> [] \<and> HTML_PATTERN_test (markdownToHtml text)"
proof -
  have "renderMessageContent (Some (renderMessageContent t)) = renderMessageContent t"
  proof (cases t)
    case None
    then show ?thesis by (simp add: renderMessageContent_def)
  next
    case (Some s)
    show ?thesis
    proof (cases "s = [] \<or> HTML_PATTERN_test s")
      case True
      with Some show ?thesis by (auto simp: renderMessageContent_def)
    next
      case False
      with Some have "renderMessageContent t = markdownToHtml s"
        by (simp add: renderMessageContent_def)
      then show ?thesis using markdownToHtml_detected[of s] by (simp add: renderMessageContent_def)
    qed
  qed
  then show ?thesis using markdown_blocks_tagged[of "text"] markdownToHtml_detected[of "text"] by simp
qed

end
